theory Spec2Isabelle
  imports Complex_Main "HOL-Library.Multiset"
begin

section \<open>The timeline editing core (engine/cpp/core)\<close>

text \<open>
  A shallow embedding of \<^verbatim>\<open>clip.h\<close>, \<^verbatim>\<open>timeline.h\<close> and \<^verbatim>\<open>timeline.cpp\<close>.

  \<^item> A C++ \<^verbatim>\<open>double\<close> is modelled as a \<open>real\<close>: rounding, infinities and NaN are
    left out, so every statement below is about the exact arithmetic the code approximates.
  \<^item> An \<^verbatim>\<open>int\<close> field is modelled as an \<open>int\<close>; the code only stores and copies them.
  \<^item> A \<^verbatim>\<open>std::vector\<close> is a list, a \<^verbatim>\<open>std::unordered_map\<close> a map \<open>'k \<rightharpoonup> 'v\<close>
    (for \<^verbatim>\<open>Effect::params\<close>, which is only stored here, an association list).
  \<^item> A pointer into a vector (\<^verbatim>\<open>Track *\<close>, \<^verbatim>\<open>Clip *\<close>) is the position it points to.
    Taking the address of a position that does not exist is undefined behaviour in C++;
    the model returns \<open>Inl UndefinedBehaviour\<close> there instead of an arbitrary value.
  \<^item> Record fields keep the names of the source; where two structs share a field name the
    field carries the initial of its struct (\<open>id_C\<close> for \<^verbatim>\<open>Clip::id\<close>, \<open>id_T\<close> for
    \<^verbatim>\<open>Track::id\<close>, \<open>duration_S\<close> for \<^verbatim>\<open>Sequence::duration\<close>), and the private members of
    \<^verbatim>\<open>Timeline\<close> drop their trailing underscore (\<open>sequence_m\<close> for \<^verbatim>\<open>sequence_\<close>).
\<close>

subsection \<open>Data model\<close>

datatype ClipKind = Video | Audio | Image

record Effect =
  id_E :: string
  type_E :: string
  params :: "(string \<times> real) list"
  enabled :: bool

record TransitionSpec =
  id_X :: string
  type_X :: string
  duration_X :: real
  easing :: real

record Clip =
  id_C :: string
  mediaId :: string
  trackId :: string
  kind_C :: ClipKind
  start :: real
  duration_C :: real
  trimStart :: real
  trimEnd :: real
  opacity :: real
  volume :: real
  effects :: "Effect list"
  transitions :: "TransitionSpec list"

definition endTime :: "Clip \<Rightarrow> real" where
  "endTime c = start c + duration_C c"

datatype TrackKind = Video | Audio | Overlay | Fx

record Track =
  id_T :: string
  kind_T :: TrackKind
  allowOverlap :: bool
  locked :: bool
  muted :: bool
  clips :: "Clip list"

record Sequence =
  id_S :: string
  name :: string
  width :: int
  height :: int
  fps :: real
  sampleRate :: int
  duration_S :: real
  tracks :: "Track list"

record TimelineFrameInfo =
  clipId :: string
  localTime :: real
  globalTime :: real

record Timeline =
  sequence_m :: Sequence
  undoStack_m :: "Sequence list"
  redoStack_m :: "Sequence list"
  trackIndex_m :: "string \<rightharpoonup> nat"
  clipIndex_m :: "string \<rightharpoonup> nat \<times> nat"

datatype error = UndefinedBehaviour

text \<open>The member initialisers of \<^verbatim>\<open>Sequence\<close> and \<^verbatim>\<open>Timeline\<close>.\<close>

definition Sequence_init :: Sequence where
  "Sequence_init = \<lparr>id_S = ''sequence-0'', name = ''Main'', width = 1920, height = 1080,
     fps = 30, sampleRate = 48000, duration_S = 0, tracks = []\<rparr>"

definition Timeline_init :: Timeline where
  "Timeline_init = \<lparr>sequence_m = Sequence_init, undoStack_m = [], redoStack_m = [],
     trackIndex_m = Map.empty, clipIndex_m = Map.empty\<rparr>"

text \<open>Reading and writing \<^verbatim>\<open>sequence_.tracks\<close> and \<^verbatim>\<open>sequence_.tracks[t].clips\<close>.\<close>

definition the_tracks :: "Timeline \<Rightarrow> Track list" where
  "the_tracks t = tracks (sequence_m t)"

definition set_tracks :: "Track list \<Rightarrow> Timeline \<Rightarrow> Timeline" where
  "set_tracks ts t = t\<lparr>sequence_m := (sequence_m t)\<lparr>tracks := ts\<rparr>\<rparr>"

definition set_clips :: "nat \<Rightarrow> Clip list \<Rightarrow> Track list \<Rightarrow> Track list" where
  "set_clips ti cs ts = ts[ti := (ts ! ti)\<lparr>clips := cs\<rparr>]"

definition erase :: "nat \<Rightarrow> 'a list \<Rightarrow> 'a list" where
  "erase i xs = take i xs @ drop (Suc i) xs"

subsection \<open>Helpers of the anonymous namespace\<close>

definition clipOverlaps :: "Clip \<Rightarrow> Clip \<Rightarrow> bool" where
  "clipOverlaps a b =
     (let startDiff = max (start a) (start b);
          endDiff = min (endTime a) (endTime b)
      in endDiff - startDiff > 1 / 1000000)"

subsection \<open>Private members\<close>

definition setSequenceMetadata :: "int \<Rightarrow> int \<Rightarrow> real \<Rightarrow> int \<Rightarrow> Timeline \<Rightarrow> Timeline" where
  "setSequenceMetadata w h f sr t =
     t\<lparr>sequence_m := (sequence_m t)\<lparr>width := w, height := h, fps := f, sampleRate := sr\<rparr>\<rparr>"

text \<open>
  \<^verbatim>\<open>pushUndo\<close>: append the current sequence, drop the oldest snapshot beyond 32, clear the
  redo stack.
\<close>

definition pushUndo :: "Timeline \<Rightarrow> Timeline" where
  "pushUndo t =
     (let u = undoStack_m t @ [sequence_m t];
          u' = (if length u > 32 then erase 0 u else u)
      in t\<lparr>undoStack_m := u', redoStack_m := []\<rparr>)"

text \<open>
  \<^verbatim>\<open>rebuildIndices\<close>: one pass over the tracks and, inside it, over the clips of each track;
  a later entry with the same key overwrites an earlier one. The two maps are written by the
  same loop; the model folds once per map.
\<close>

definition index_tracks :: "Track list \<Rightarrow> (string \<rightharpoonup> nat)" where
  "index_tracks ts = fold (\<lambda>(t, T) m. m(id_T T \<mapsto> t)) (enumerate 0 ts) Map.empty"

definition index_clips_of :: "nat \<Rightarrow> Clip list \<Rightarrow> (string \<rightharpoonup> nat \<times> nat) \<Rightarrow> (string \<rightharpoonup> nat \<times> nat)" where
  "index_clips_of t cs m = fold (\<lambda>(c, C) m. m(id_C C \<mapsto> (t, c))) (enumerate 0 cs) m"

definition index_clips :: "Track list \<Rightarrow> (string \<rightharpoonup> nat \<times> nat)" where
  "index_clips ts = fold (\<lambda>(t, T) m. index_clips_of t (clips T) m) (enumerate 0 ts) Map.empty"

definition rebuildIndices :: "Timeline \<Rightarrow> Timeline" where
  "rebuildIndices t =
     t\<lparr>trackIndex_m := index_tracks (the_tracks t), clipIndex_m := index_clips (the_tracks t)\<rparr>"

text \<open>
  \<^verbatim>\<open>findTrack\<close> and \<^verbatim>\<open>findClip\<close>: \<open>Inr None\<close> is the null pointer, \<open>Inr (Some p)\<close> a pointer
  to position \<open>p\<close>; an index entry that points outside the vectors is undefined behaviour.
\<close>

definition findTrack :: "string \<Rightarrow> Timeline \<Rightarrow> error + nat option" where
  "findTrack tid t =
     (case trackIndex_m t tid of
        None \<Rightarrow> Inr None
      | Some i \<Rightarrow> if i < length (the_tracks t) then Inr (Some i) else Inl UndefinedBehaviour)"

definition findClip :: "string \<Rightarrow> Timeline \<Rightarrow> error + (nat \<times> nat) option" where
  "findClip cid t =
     (case clipIndex_m t cid of
        None \<Rightarrow> Inr None
      | Some (i, j) \<Rightarrow>
          if i < length (the_tracks t) \<and> j < length (clips (the_tracks t ! i))
          then Inr (Some (i, j)) else Inl UndefinedBehaviour)"

definition clip_at :: "nat \<times> nat \<Rightarrow> Timeline \<Rightarrow> Clip" where
  "clip_at p t = clips (the_tracks t ! fst p) ! snd p"

definition put_clip :: "nat \<times> nat \<Rightarrow> Clip \<Rightarrow> Timeline \<Rightarrow> Timeline" where
  "put_clip p c t =
     set_tracks (set_clips (fst p) ((clips (the_tracks t ! fst p))[snd p := c]) (the_tracks t)) t"

text \<open>\<^verbatim>\<open>validatePlacement\<close>: the loop over positions, with its \<^verbatim>\<open>continue\<close> and early return.\<close>

fun validate_from :: "nat option \<Rightarrow> Clip \<Rightarrow> nat \<Rightarrow> Clip list \<Rightarrow> bool" where
  "validate_from ignoreIndex candidate i [] = True"
| "validate_from ignoreIndex candidate i (c # cs) =
     (if ignoreIndex = Some i then validate_from ignoreIndex candidate (Suc i) cs
      else if clipOverlaps c candidate then False
      else validate_from ignoreIndex candidate (Suc i) cs)"

definition validatePlacement :: "Track \<Rightarrow> Clip \<Rightarrow> nat option \<Rightarrow> bool" where
  "validatePlacement track candidate ignoreIndex =
     (if allowOverlap track then True else validate_from ignoreIndex candidate 0 (clips track))"

text \<open>\<^verbatim>\<open>updateDuration\<close>: the running maximum starts at \<open>0.0\<close>.\<close>

definition max_endTime :: "Track list \<Rightarrow> real" where
  "max_endTime ts = fold (\<lambda>T m. fold (\<lambda>c m. max m (endTime c)) (clips T) m) ts 0"

definition updateDuration :: "Timeline \<Rightarrow> Timeline" where
  "updateDuration t = t\<lparr>sequence_m := (sequence_m t)\<lparr>duration_S := max_endTime (the_tracks t)\<rparr>\<rparr>"

text \<open>
  \<^verbatim>\<open>std::sort\<close> with the comparator \<^verbatim>\<open>lhs.start < rhs.start\<close>. The standard fixes the result
  up to the order of clips with equal \<open>start\<close>; the model takes the stable order. No
  evaluation below sorts a track with two equal starts.
\<close>

definition sort_clips :: "Clip list \<Rightarrow> Clip list" where
  "sort_clips cs = sort_key start cs"

subsection \<open>Public mutating operations\<close>

definition addTrack :: "Track \<Rightarrow> Timeline \<Rightarrow> error + bool \<times> Timeline" where
  "addTrack track t =
     (if trackIndex_m t (id_T track) \<noteq> None then Inr (False, t)
      else
        let t1 = pushUndo t;
            t2 = set_tracks (the_tracks t1 @ [track]) t1;
            t3 = t2\<lparr>trackIndex_m := (trackIndex_m t2)(id_T track \<mapsto> length (the_tracks t2) - 1)\<rparr>
        in Inr (True, rebuildIndices t3))"

definition updateTrack :: "Track \<Rightarrow> Timeline \<Rightarrow> error + bool \<times> Timeline" where
  "updateTrack track t =
     (case findTrack (id_T track) t of
        Inl e \<Rightarrow> Inl e
      | Inr None \<Rightarrow> Inr (False, t)
      | Inr (Some i) \<Rightarrow>
          let t1 = pushUndo t;
              t2 = set_tracks ((the_tracks t1)[i := track]) t1
          in Inr (True, rebuildIndices t2))"

definition removeTrack :: "string \<Rightarrow> Timeline \<Rightarrow> error + bool \<times> Timeline" where
  "removeTrack tid t =
     (case trackIndex_m t tid of
        None \<Rightarrow> Inr (False, t)
      | Some i \<Rightarrow>
          let t1 = pushUndo t
          in if i < length (the_tracks t1)
             then Inr (True, rebuildIndices (set_tracks (erase i (the_tracks t1)) t1))
             else Inl UndefinedBehaviour)"

text \<open>
  The tail shared by \<^verbatim>\<open>upsertClip\<close> and \<^verbatim>\<open>splitClip\<close>: sort the clips of \<^verbatim>\<open>track\<close>, rebuild the
  indices, recompute the duration.
\<close>

definition sort_track :: "nat \<Rightarrow> Timeline \<Rightarrow> Timeline" where
  "sort_track ti t =
     set_tracks (set_clips ti (sort_clips (clips (the_tracks t ! ti))) (the_tracks t)) t"

definition upsertClip :: "Clip \<Rightarrow> Timeline \<Rightarrow> error + bool \<times> Timeline" where
  "upsertClip clip t =
     (case findTrack (trackId clip) t of
        Inl e \<Rightarrow> Inl e
      | Inr None \<Rightarrow> Inr (False, t)
      | Inr (Some track) \<Rightarrow>
          (case clipIndex_m t (id_C clip) of
             None \<Rightarrow>
               if \<not> validatePlacement (the_tracks t ! track) clip None then Inr (False, t)
               else
                 let t1 = pushUndo t;
                     t2 = set_tracks (set_clips track (clips (the_tracks t1 ! track) @ [clip])
                            (the_tracks t1)) t1
                 in Inr (True, updateDuration (rebuildIndices (sort_track track t2)))
           | Some pair \<Rightarrow>
               if \<not> (fst pair < length (the_tracks t)
                     \<and> snd pair < length (clips (the_tracks t ! fst pair)))
               then Inl UndefinedBehaviour
               else if \<not> validatePlacement (the_tracks t ! track) clip (Some (snd pair))
               then Inr (False, t)
               else
                 let t1 = pushUndo t;
                     t2 = put_clip pair clip t1
                 in Inr (True, updateDuration (rebuildIndices (sort_track track t2)))))"

definition moveClip :: "string \<Rightarrow> string \<Rightarrow> real \<Rightarrow> Timeline \<Rightarrow> error + bool \<times> Timeline" where
  "moveClip cid targetTrackId newStart t =
     (case findClip cid t of
        Inl e \<Rightarrow> Inl e
      | Inr clip \<Rightarrow>
          (case findTrack targetTrackId t of
             Inl e \<Rightarrow> Inl e
           | Inr targetTrack \<Rightarrow>
               (case (clip, targetTrack) of
                  (Some p, Some tt) \<Rightarrow>
                    let candidate = (clip_at p t)\<lparr>trackId := targetTrackId, start := newStart\<rparr>
                    in if \<not> validatePlacement (the_tracks t ! tt) candidate None
                       then Inr (False, t)
                       else
                         let t1 = pushUndo t;
                             t2 = put_clip p candidate t1
                         in Inr (True, updateDuration (rebuildIndices t2))
                | _ \<Rightarrow> Inr (False, t))))"

definition trimClip :: "string \<Rightarrow> real \<Rightarrow> real \<Rightarrow> Timeline \<Rightarrow> error + bool \<times> Timeline" where
  "trimClip cid dStart dEnd t =
     (case findClip cid t of
        Inl e \<Rightarrow> Inl e
      | Inr None \<Rightarrow> Inr (False, t)
      | Inr (Some p) \<Rightarrow>
          let clip = clip_at p t;
              newDuration = max 0 (duration_C clip - dStart - dEnd)
          in if newDuration \<le> 0 then Inr (False, t)
             else
               let t1 = pushUndo t;
                   t2 = put_clip p (clip\<lparr>trimStart := trimStart clip + dStart,
                                          trimEnd := trimEnd clip + dEnd,
                                          duration_C := newDuration\<rparr>) t1
               in Inr (True, updateDuration t2))"

text \<open>
  \<^verbatim>\<open>splitClip\<close>: the snapshot and the two writes to \<^verbatim>\<open>*clip\<close> come before the lookup of the
  clip's track, so the \<^verbatim>\<open>return false\<close> after that lookup returns the written state.
\<close>

definition splitClip :: "string \<Rightarrow> real \<Rightarrow> Timeline \<Rightarrow> error + bool \<times> Timeline" where
  "splitClip cid offsetSeconds t =
     (case findClip cid t of
        Inl e \<Rightarrow> Inl e
      | Inr None \<Rightarrow> Inr (False, t)
      | Inr (Some p) \<Rightarrow>
          if offsetSeconds \<le> 0 \<or> offsetSeconds \<ge> duration_C (clip_at p t) then Inr (False, t)
          else
            let t1 = pushUndo t;
                clip = clip_at p t1;
                secondHalf = clip\<lparr>id_C := id_C clip @ ''_b'',
                                  start := start clip + offsetSeconds,
                                  trimStart := trimStart clip + offsetSeconds,
                                  duration_C := duration_C clip - offsetSeconds\<rparr>;
                t2 = put_clip p (clip\<lparr>duration_C := offsetSeconds,
                                       trimEnd := trimEnd clip + duration_C secondHalf\<rparr>) t1
            in (case findTrack (trackId (clip_at p t2)) t2 of
                  Inl e \<Rightarrow> Inl e
                | Inr None \<Rightarrow> Inr (False, t2)
                | Inr (Some track) \<Rightarrow>
                    let t3 = set_tracks (set_clips track
                               (clips (the_tracks t2 ! track) @ [secondHalf]) (the_tracks t2)) t2
                    in Inr (True, updateDuration (rebuildIndices (sort_track track t3)))))"

text \<open>
  \<^verbatim>\<open>rippleDelete\<close>. The pointer \<^verbatim>\<open>clip\<close> is taken before the \<^verbatim>\<open>erase\<close> and read after it, inside
  the loop: \<^verbatim>\<open>clip->start\<close> is whatever the position \<open>p\<close> holds at that moment. After erasing
  position \<open>snd p\<close> of the same vector, that position holds the clip that followed the erased
  one (and the loop itself rewrites it); when the erased clip was the last one, the position
  is the destroyed last slot of the storage, whose \<^verbatim>\<open>double\<close> still holds the erased clip's
  start (\<open>stale\<close>). The erase goes to the track named by \<^verbatim>\<open>clip->trackId\<close>, at the clip position
  recorded in \<^verbatim>\<open>clipIndex_\<close>; erasing a position the vector does not have is undefined
  behaviour.
\<close>

definition deref_start :: "nat \<times> nat \<Rightarrow> real \<Rightarrow> Track list \<Rightarrow> real" where
  "deref_start p stale ts =
     (let cs = clips (ts ! fst p) in if snd p < length cs then start (cs ! snd p) else stale)"

definition ripple_step :: "nat \<times> nat \<Rightarrow> real \<Rightarrow> nat \<Rightarrow> real \<Rightarrow> nat \<Rightarrow> Track list \<Rightarrow> Track list" where
  "ripple_step p stale track removedDuration j ts =
     (let otherClip = clips (ts ! track) ! j
      in if start otherClip \<ge> deref_start p stale ts
         then set_clips track
                ((clips (ts ! track))[j := otherClip\<lparr>start := max 0 (start otherClip - removedDuration)\<rparr>])
                ts
         else ts)"

definition ripple_loop :: "nat \<times> nat \<Rightarrow> real \<Rightarrow> nat \<Rightarrow> real \<Rightarrow> Track list \<Rightarrow> Track list" where
  "ripple_loop p stale track removedDuration ts =
     fold (ripple_step p stale track removedDuration) [0..<length (clips (ts ! track))] ts"

definition rippleDelete :: "string \<Rightarrow> Timeline \<Rightarrow> error + bool \<times> Timeline" where
  "rippleDelete cid t =
     (case findClip cid t of
        Inl e \<Rightarrow> Inl e
      | Inr None \<Rightarrow> Inr (False, t)
      | Inr (Some p) \<Rightarrow>
          (case findTrack (trackId (clip_at p t)) t of
             Inl e \<Rightarrow> Inl e
           | Inr None \<Rightarrow> Inr (False, t)
           | Inr (Some track) \<Rightarrow>
               let removedDuration = duration_C (clip_at p t);
                   stale = start (clip_at p t);
                   t1 = pushUndo t
               in if \<not> snd p < length (clips (the_tracks t1 ! track)) then Inl UndefinedBehaviour
                  else
                    let ts2 = set_clips track (erase (snd p) (clips (the_tracks t1 ! track)))
                                (the_tracks t1);
                        ts3 = ripple_loop p stale track removedDuration ts2
                    in Inr (True, updateDuration (rebuildIndices (set_tracks ts3 t1)))))"

subsection \<open>Queries\<close>

fun frameAt_clips :: "real \<Rightarrow> Clip list \<Rightarrow> TimelineFrameInfo option" where
  "frameAt_clips timeSeconds [] = None"
| "frameAt_clips timeSeconds (clip # cs) =
     (if timeSeconds \<ge> start clip \<and> timeSeconds \<le> endTime clip
      then Some \<lparr>clipId = id_C clip, localTime = timeSeconds - start clip, globalTime = timeSeconds\<rparr>
      else frameAt_clips timeSeconds cs)"

fun frameAt_tracks :: "real \<Rightarrow> Track list \<Rightarrow> TimelineFrameInfo option" where
  "frameAt_tracks timeSeconds [] = None"
| "frameAt_tracks timeSeconds (track # ts) =
     (if kind_T track \<noteq> TrackKind.Video then frameAt_tracks timeSeconds ts
      else (case frameAt_clips timeSeconds (clips track) of
              Some f \<Rightarrow> Some f
            | None \<Rightarrow> frameAt_tracks timeSeconds ts))"

definition frameAt :: "real \<Rightarrow> Timeline \<Rightarrow> TimelineFrameInfo option" where
  "frameAt timeSeconds t = frameAt_tracks timeSeconds (the_tracks t)"

definition duration :: "Timeline \<Rightarrow> real" where
  "duration t = duration_S (sequence_m t)"

definition sequence :: "Timeline \<Rightarrow> Sequence" where
  "sequence t = sequence_m t"

subsection \<open>The calls of a host\<close>

text \<open>
  The eight mutating member functions the binding layer exposes (\<^verbatim>\<open>js_bindings.cpp\<close>), as
  one type of call, and a host that issues a list of calls against one \<^verbatim>\<open>Timeline\<close>,
  collecting the returned booleans.
\<close>

datatype edit =
    AddTrack Track
  | UpdateTrack Track
  | RemoveTrack string
  | UpsertClip Clip
  | MoveClip string string real
  | TrimClip string real real
  | SplitClip string real
  | RippleDelete string

fun apply_edit :: "edit \<Rightarrow> Timeline \<Rightarrow> error + bool \<times> Timeline" where
  "apply_edit (AddTrack track) t = addTrack track t"
| "apply_edit (UpdateTrack track) t = updateTrack track t"
| "apply_edit (RemoveTrack tid) t = removeTrack tid t"
| "apply_edit (UpsertClip clip) t = upsertClip clip t"
| "apply_edit (MoveClip cid tid newStart) t = moveClip cid tid newStart t"
| "apply_edit (TrimClip cid dStart dEnd) t = trimClip cid dStart dEnd t"
| "apply_edit (SplitClip cid offsetSeconds) t = splitClip cid offsetSeconds t"
| "apply_edit (RippleDelete cid) t = rippleDelete cid t"

fun calls :: "edit list \<Rightarrow> Timeline \<Rightarrow> error + bool list \<times> Timeline" where
  "calls [] t = Inr ([], t)"
| "calls (e # es) t =
     (case apply_edit e t of
        Inl x \<Rightarrow> Inl x
      | Inr (b, t') \<Rightarrow>
          (case calls es t' of Inl x \<Rightarrow> Inl x | Inr (bs, t'') \<Rightarrow> Inr (b # bs, t'')))"

text \<open>The states a host can reach from a fresh \<^verbatim>\<open>Timeline\<close>.\<close>

inductive reachable :: "Timeline \<Rightarrow> bool" where
  fresh: "reachable Timeline_init"
| metadata: "reachable t \<Longrightarrow> reachable (setSequenceMetadata w h f sr t)"
| edit: "reachable t \<Longrightarrow> apply_edit e t = Inr (b, t') \<Longrightarrow> reachable t'"

text \<open>
  A default-initialised \<^verbatim>\<open>Clip\<close> and \<^verbatim>\<open>Track\<close> (the member initialisers of \<^verbatim>\<open>clip.h\<close>
  and \<^verbatim>\<open>timeline.h\<close>), and the clips and tracks of the scenarios: a clip given by id, track
  id, start and duration, a track given by id and clips.
\<close>

definition Clip_init :: Clip where
  "Clip_init = \<lparr>id_C = [], mediaId = [], trackId = [], kind_C = ClipKind.Video, start = 0,
     duration_C = 0, trimStart = 0, trimEnd = 0, opacity = 1, volume = 1, effects = [],
     transitions = []\<rparr>"

definition Track_init :: Track where
  "Track_init = \<lparr>id_T = [], kind_T = TrackKind.Video, allowOverlap = False, locked = False,
     muted = False, clips = []\<rparr>"

definition a_clip :: "string \<Rightarrow> string \<Rightarrow> real \<Rightarrow> real \<Rightarrow> Clip" where
  "a_clip i tr s d = Clip_init\<lparr>id_C := i, trackId := tr, start := s, duration_C := d\<rparr>"

definition a_track :: "string \<Rightarrow> Clip list \<Rightarrow> Track" where
  "a_track i cs = Track_init\<lparr>id_T := i, clips := cs\<rparr>"

subsection \<open>The properties the specification names\<close>

definition all_clips :: "Track list \<Rightarrow> Clip list" where
  "all_clips ts = concat (map clips ts)"

text \<open>The duration as the specification words it: the maximum end time, or 0 without clips.\<close>

definition duration_as_specified :: "Track list \<Rightarrow> real" where
  "duration_as_specified ts =
     (if all_clips ts = [] then 0 else Max (endTime ` set (all_clips ts)))"

text \<open>The operations that end with \<^verbatim>\<open>updateDuration()\<close>.\<close>

fun recomputes_duration :: "edit \<Rightarrow> bool" where
  "recomputes_duration (AddTrack track) = False"
| "recomputes_duration (UpdateTrack track) = False"
| "recomputes_duration (RemoveTrack tid) = False"
| "recomputes_duration e = True"

definition sorted_by_start :: "Clip list \<Rightarrow> bool" where
  "sorted_by_start cs = sorted (map start cs)"

definition track_ids :: "Timeline \<Rightarrow> string list" where
  "track_ids t = map id_T (the_tracks t)"

definition clip_ids :: "Timeline \<Rightarrow> string list" where
  "clip_ids t = map id_C (all_clips (the_tracks t))"

definition ids_unique :: "Timeline \<Rightarrow> bool" where
  "ids_unique t = (distinct (track_ids t) \<and> distinct (clip_ids t))"

text \<open>Invariant 6 of the specification: the indices are the ones \<^verbatim>\<open>rebuildIndices\<close> computes.\<close>

definition indices_ok :: "Timeline \<Rightarrow> bool" where
  "indices_ok t =
     (trackIndex_m t = index_tracks (the_tracks t) \<and> clipIndex_m t = index_clips (the_tracks t))"

text \<open>Invariant 2: every clip names the track that holds it.\<close>

definition trackIds_consistent :: "Track list \<Rightarrow> bool" where
  "trackIds_consistent ts = list_all (\<lambda>T. list_all (\<lambda>c. trackId c = id_T T) (clips T)) ts"

text \<open>\<open>t\<close> lies inside the clip: \<^verbatim>\<open>start \<le> t \<le> endTime\<close>.\<close>

definition contains_time :: "real \<Rightarrow> Clip \<Rightarrow> bool" where
  "contains_time tm c = (start c \<le> tm \<and> tm \<le> endTime c)"

definition frame_of :: "real \<Rightarrow> Clip \<Rightarrow> TimelineFrameInfo" where
  "frame_of tm c = \<lparr>clipId = id_C c, localTime = tm - start c, globalTime = tm\<rparr>"

text \<open>
  The query as the specification words it: the first clip containing \<open>t\<close>, in the order of
  the tracks and, inside a track, of its clip list, over the tracks of kind Video only.
\<close>

definition frameAt_as_specified :: "real \<Rightarrow> Track list \<Rightarrow> TimelineFrameInfo option" where
  "frameAt_as_specified tm ts =
     map_option (frame_of tm)
       (find (contains_time tm) (all_clips (filter (\<lambda>T. kind_T T = TrackKind.Video) ts)))"

text \<open>
  Order: every track's clip list ascending by start; the track whose clips an operation
  sorts (\<^verbatim>\<open>upsertClip\<close> the target track, \<^verbatim>\<open>splitClip\<close> the track the clip's \<^verbatim>\<open>trackId\<close> names);
  and the calls that write no start out of order: the track operations with a sorted clip
  list, \<^verbatim>\<open>upsertClip\<close> of a new clip or of one that lives in the target track, \<^verbatim>\<open>trimClip\<close>
  and \<^verbatim>\<open>splitClip\<close>.
\<close>

definition all_sorted :: "Track list \<Rightarrow> bool" where
  "all_sorted ts = list_all (\<lambda>T. sorted_by_start (clips T)) ts"

text \<open>
  The query read with the clips of each track taken in ascending order of start (the order
  \<^verbatim>\<open>std::sort\<close> gives them).
\<close>

definition frameAt_in_sorted_order :: "real \<Rightarrow> Track list \<Rightarrow> TimelineFrameInfo option" where
  "frameAt_in_sorted_order tm ts =
     map_option (frame_of tm)
       (find (contains_time tm)
          (concat (map (\<lambda>T. sort_clips (clips T))
             (filter (\<lambda>T. kind_T T = TrackKind.Video) ts))))"

fun resorted_track :: "edit \<Rightarrow> Timeline \<Rightarrow> nat option" where
  "resorted_track (UpsertClip c) t = trackIndex_m t (trackId c)"
| "resorted_track (SplitClip cid offsetSeconds) t =
     (case clipIndex_m t cid of
        None \<Rightarrow> None
      | Some p \<Rightarrow> trackIndex_m t (trackId (clip_at p t)))"
| "resorted_track e t = None"

fun keeps_order :: "edit \<Rightarrow> Timeline \<Rightarrow> bool" where
  "keeps_order (AddTrack T) t = sorted_by_start (clips T)"
| "keeps_order (UpdateTrack T) t = sorted_by_start (clips T)"
| "keeps_order (RemoveTrack tid) t = True"
| "keeps_order (UpsertClip c) t =
     (case clipIndex_m t (id_C c) of
        None \<Rightarrow> True
      | Some p \<Rightarrow> trackIndex_m t (trackId c) = Some (fst p))"
| "keeps_order (MoveClip cid tid newStart) t = False"
| "keeps_order (TrimClip cid dStart dEnd) t = True"
| "keeps_order (SplitClip cid offsetSeconds) t = True"
| "keeps_order (RippleDelete cid) t = False"

text \<open>
  The clip identifiers track by track, and the calls that bring no identifier in twice: the
  track operations with fresh clip identifiers, \<^verbatim>\<open>splitClip\<close> when the suffixed identifier
  is not yet in use, and every other operation.
\<close>

definition clip_ids_by_track :: "Track list \<Rightarrow> string list list" where
  "clip_ids_by_track ts = map (\<lambda>T. map id_C (clips T)) ts"

fun keeps_clip_ids :: "edit \<Rightarrow> Timeline \<Rightarrow> bool" where
  "keeps_clip_ids (AddTrack T) t =
     (distinct (map id_C (clips T)) \<and> set (map id_C (clips T)) \<inter> set (clip_ids t) = {})"
| "keeps_clip_ids (UpdateTrack T) t =
     (case trackIndex_m t (id_T T) of
        None \<Rightarrow> True
      | Some i \<Rightarrow> distinct (map id_C (all_clips ((the_tracks t)[i := T]))))"
| "keeps_clip_ids (SplitClip cid offsetSeconds) t = (cid @ ''_b'' \<notin> set (clip_ids t))"
| "keeps_clip_ids e t = True"

text \<open>The state a fresh \<^verbatim>\<open>Timeline\<close> is in after a list of calls.\<close>

definition state_after :: "edit list \<Rightarrow> Timeline" where
  "state_after es = (case calls es Timeline_init of Inl e \<Rightarrow> Timeline_init | Inr (bs, t) \<Rightarrow> t)"

section \<open>Evaluation\<close>

lemmas model_defs =
  Clip_init_def Track_init_def a_clip_def a_track_def Timeline_init_def Sequence_init_def
  addTrack_def updateTrack_def removeTrack_def upsertClip_def moveClip_def trimClip_def
  splitClip_def rippleDelete_def ripple_loop_def ripple_step_def deref_start_def
  rebuildIndices_def set_tracks_def the_tracks_def index_tracks_def index_clips_def
  index_clips_of_def set_clips_def findClip_def findTrack_def clip_at_def put_clip_def
  pushUndo_def erase_def updateDuration_def max_endTime_def endTime_def sort_track_def
  sort_clips_def validatePlacement_def clipOverlaps_def Let_def enumerate_eq_zip
  sequence_def duration_def

section \<open>Failed operations\<close>

text \<open>
  C1. The claim: an operation that returns false leaves the sequence unchanged and pushes no
  snapshot. \<^verbatim>\<open>splitClip\<close> pushes the snapshot and writes the first half's \<^verbatim>\<open>duration\<close> and
  \<^verbatim>\<open>trimEnd\<close> before it looks the clip's track up. A track added with a clip whose \<^verbatim>\<open>trackId\<close>
  names no track makes that lookup fail: \<^verbatim>\<open>splitClip("x", 2)\<close> returns false, the clip's
  duration has gone from 4 to 2, its \<^verbatim>\<open>trimEnd\<close> from 0 to 2, and the undo buffer has grown by
  one snapshot.
\<close>

theorem C1_splitClip_false_after_writing:
  "(case calls [AddTrack (a_track ''v1'' [a_clip ''x'' ''ghost'' 0 4])] Timeline_init of
      Inl e \<Rightarrow> False
    | Inr (bs, s) \<Rightarrow>
        bs = [True] \<and>
        (case splitClip ''x'' 2 s of
           Inl e \<Rightarrow> False
         | Inr (b, s') \<Rightarrow>
             b = False \<and> sequence s' \<noteq> sequence s
             \<and> map duration_C (all_clips (tracks (sequence s))) = [4]
             \<and> map duration_C (all_clips (tracks (sequence s'))) = [2]
             \<and> map trimEnd (all_clips (tracks (sequence s'))) = [2]
             \<and> undoStack_m s' = undoStack_m s @ [sequence s]))"
  by (simp add: model_defs all_clips_def)

subsection \<open>Reading the state after the private helpers\<close>

lemma the_tracks_simps [simp]:
  "the_tracks (pushUndo t) = the_tracks t"
  "the_tracks (rebuildIndices t) = the_tracks t"
  "the_tracks (updateDuration t) = the_tracks t"
  "the_tracks (set_tracks ts t) = ts"
  "the_tracks (setSequenceMetadata w h f sr t) = the_tracks t"
  by (simp_all add: the_tracks_def pushUndo_def rebuildIndices_def updateDuration_def
      set_tracks_def setSequenceMetadata_def Let_def)

lemma duration_simps [simp]:
  "duration (pushUndo t) = duration t"
  "duration (rebuildIndices t) = duration t"
  "duration (updateDuration t) = max_endTime (the_tracks t)"
  "duration (set_tracks ts t) = duration t"
  "duration (setSequenceMetadata w h f sr t) = duration t"
  "duration (t\<lparr>trackIndex_m := m\<rparr>) = duration t"
  by (simp_all add: duration_def pushUndo_def rebuildIndices_def updateDuration_def
      set_tracks_def setSequenceMetadata_def Let_def)

lemma index_simps [simp]:
  "trackIndex_m (pushUndo t) = trackIndex_m t"
  "clipIndex_m (pushUndo t) = clipIndex_m t"
  "trackIndex_m (updateDuration t) = trackIndex_m t"
  "clipIndex_m (updateDuration t) = clipIndex_m t"
  "trackIndex_m (set_tracks ts t) = trackIndex_m t"
  "clipIndex_m (set_tracks ts t) = clipIndex_m t"
  "trackIndex_m (rebuildIndices t) = index_tracks (the_tracks t)"
  "clipIndex_m (rebuildIndices t) = index_clips (the_tracks t)"
  by (simp_all add: pushUndo_def rebuildIndices_def updateDuration_def set_tracks_def Let_def)

lemma length_set_clips [simp]: "length (set_clips i cs ts) = length ts"
  by (simp add: set_clips_def)

lemma clips_set_clips_same [simp]:
  "i < length ts \<Longrightarrow> clips (set_clips i cs ts ! i) = cs"
  by (simp add: set_clips_def)

lemma set_clips_other [simp]:
  "k \<noteq> i \<Longrightarrow> set_clips i cs ts ! k = ts ! k"
  by (simp add: set_clips_def)

lemma the_tracks_put_clip [simp]:
  "the_tracks (put_clip p c t) =
     set_clips (fst p) ((clips (the_tracks t ! fst p))[snd p := c]) (the_tracks t)"
  by (simp add: put_clip_def)

lemma duration_put_clip [simp]: "duration (put_clip p c t) = duration t"
  by (simp add: put_clip_def)

section \<open>Clips on the wrong track\<close>

text \<open>
  C2. The claim: after a successful \<^verbatim>\<open>moveClip(clipId, targetTrackId, newStart)\<close> the clip is
  in the target track's clip list, \<^verbatim>\<open>clipIndex_[clipId]\<close> names the target track's position,
  and every clip's \<^verbatim>\<open>trackId\<close> is the id of the track that holds it. \<^verbatim>\<open>moveClip\<close> writes the
  candidate over the clip where it is (\<^verbatim>\<open>*clip = candidate\<close>) and never touches the target
  track's vector. In scenario S5 of the specification, after \<^verbatim>\<open>moveClip("p", "v2", 3)\<close> has
  returned true, \<^verbatim>\<open>p\<close> is still the only clip of \<^verbatim>\<open>v1\<close> (position 0), \<^verbatim>\<open>v2\<close> (position 1) holds
  only \<^verbatim>\<open>q\<close>, \<^verbatim>\<open>clipIndex_["p"]\<close> is (0, 0), and \<^verbatim>\<open>p.trackId\<close> is \<^verbatim>\<open>"v2"\<close> inside track \<^verbatim>\<open>v1\<close>.
\<close>

theorem C2_moveClip_leaves_clip_in_its_track:
  "(case calls [AddTrack (a_track ''v1'' []), AddTrack (a_track ''v2'' []),
                UpsertClip (a_clip ''p'' ''v1'' 0 2), UpsertClip (a_clip ''q'' ''v2'' 1 2),
                MoveClip ''p'' ''v2'' 0, MoveClip ''p'' ''v2'' 3] Timeline_init of
      Inl e \<Rightarrow> False
    | Inr (bs, s) \<Rightarrow>
        bs = [True, True, True, True, False, True]
        \<and> trackIndex_m s ''v1'' = Some 0 \<and> trackIndex_m s ''v2'' = Some 1
        \<and> clipIndex_m s ''p'' = Some (0, 0)
        \<and> map id_C (clips (the_tracks s ! 0)) = [''p'']
        \<and> map id_C (clips (the_tracks s ! 1)) = [''q'']
        \<and> map trackId (clips (the_tracks s ! 0)) = [''v2'']
        \<and> \<not> trackIds_consistent (the_tracks s))"
  by (simp add: model_defs trackIds_consistent_def)

text \<open>
  C4. The claim: on a track without \<^verbatim>\<open>allowOverlap\<close>, \<^verbatim>\<open>upsertClip(C)\<close> returns false
  whenever \<^verbatim>\<open>C\<close> overlaps another clip of the track, and the slot of an existing clip with
  \<^verbatim>\<open>C.id\<close> is left out of the check only if that clip lives in the target track.
  \<^verbatim>\<open>upsertClip\<close> passes the clip position of the existing clip, \<^verbatim>\<open>pair.second\<close>, to
  \<^verbatim>\<open>validatePlacement\<close> without comparing \<^verbatim>\<open>pair.first\<close> with the target track. With \<^verbatim>\<open>x\<close> at
  position 0 of \<^verbatim>\<open>v1\<close> and \<^verbatim>\<open>y\<close> (0 to 5) at position 0 of \<^verbatim>\<open>v2\<close>, upserting \<^verbatim>\<open>x\<close> onto \<^verbatim>\<open>v2\<close>
  at 0 to 5 skips \<^verbatim>\<open>y\<close> and returns true, although the candidate overlaps \<^verbatim>\<open>y\<close>.
\<close>

theorem C4_upsertClip_accepts_overlap:
  "(case calls [AddTrack (a_track ''v1'' []), AddTrack (a_track ''v2'' []),
                UpsertClip (a_clip ''x'' ''v1'' 0 5), UpsertClip (a_clip ''y'' ''v2'' 0 5)]
          Timeline_init of
      Inl e \<Rightarrow> False
    | Inr (bs, s) \<Rightarrow>
        bs = [True, True, True, True]
        \<and> clipIndex_m s ''x'' = Some (0, 0) \<and> trackIndex_m s ''v2'' = Some 1
        \<and> \<not> allowOverlap (the_tracks s ! 1)
        \<and> map id_C (clips (the_tracks s ! 1)) = [''y'']
        \<and> clipOverlaps (clips (the_tracks s ! 1) ! 0) (a_clip ''x'' ''v2'' 0 5)
        \<and> (case upsertClip (a_clip ''x'' ''v2'' 0 5) s of
              Inl e \<Rightarrow> False
            | Inr (b, s') \<Rightarrow> b = True))"
  by (simp add: model_defs)

section \<open>Ripple delete\<close>

text \<open>
  C5. The claim: \<^verbatim>\<open>rippleDelete\<close> of a clip with start \<open>s\<close> and duration \<open>d\<close> moves every
  remaining clip of the track whose start was at least \<open>s\<close> earlier by \<open>d\<close> (not below 0).
  The loop compares with \<^verbatim>\<open>clip->start\<close> after the erase, when \<^verbatim>\<open>clip\<close> points at the clip
  that followed the erased one. On an overlap track holding \<^verbatim>\<open>a\<close> (start 3), \<^verbatim>\<open>x\<close> (start 3,
  duration 2) and \<^verbatim>\<open>n\<close> (start 8), deleting \<^verbatim>\<open>x\<close> compares \<^verbatim>\<open>a.start = 3\<close> with \<^verbatim>\<open>n.start = 8\<close>
  and leaves \<^verbatim>\<open>a\<close> at 3, where the claim puts it at 1; \<^verbatim>\<open>n\<close> moves to 6.
\<close>

theorem C5_rippleDelete_skips_tied_start:
  "(case calls [AddTrack ((a_track ''v1'' [a_clip ''a'' ''v1'' 3 1, a_clip ''x'' ''v1'' 3 2,
                                          a_clip ''n'' ''v1'' 8 1])\<lparr>allowOverlap := True\<rparr>),
                RippleDelete ''x''] Timeline_init of
      Inl e \<Rightarrow> False
    | Inr (bs, s) \<Rightarrow>
        bs = [True, True]
        \<and> map (\<lambda>c. (id_C c, start c)) (all_clips (the_tracks s)) = [(''a'', 3), (''n'', 6)])"
  by (simp add: model_defs all_clips_def)

section \<open>Trimming\<close>

text \<open>
  C8. The claim: for arguments of any sign, a successful \<^verbatim>\<open>trimClip(clipId, dStart, dEnd)\<close>
  never makes the clip longer, so a trim never brings in an overlap. \<^verbatim>\<open>trimClip\<close> only checks
  that the new duration is positive; it neither rejects a negative amount, as \<^verbatim>\<open>splitClip\<close>
  rejects an offset that is not positive, nor validates the placement, as \<^verbatim>\<open>upsertClip\<close> and
  \<^verbatim>\<open>moveClip\<close> do. On a track without \<^verbatim>\<open>allowOverlap\<close> holding \<^verbatim>\<open>c\<close> (0 to 4) and \<^verbatim>\<open>d\<close>
  (4 to 8), which do not overlap, \<^verbatim>\<open>trimClip("c", 0, -1)\<close> returns true: \<^verbatim>\<open>c\<close> has duration 5
  instead of 4, \<^verbatim>\<open>trimEnd\<close> -1, and overlaps \<^verbatim>\<open>d\<close>.
\<close>

theorem C8_trimClip_lengthens_clip:
  "(case calls [AddTrack (a_track ''v1'' []), UpsertClip (a_clip ''c'' ''v1'' 0 4),
                UpsertClip (a_clip ''d'' ''v1'' 4 4)] Timeline_init of
      Inl e \<Rightarrow> False
    | Inr (bs, s) \<Rightarrow>
        bs = [True, True, True]
        \<and> map (\<lambda>c. (id_C c, start c, duration_C c, trimEnd c)) (clips (the_tracks s ! 0))
            = [(''c'', 0, 4, 0), (''d'', 4, 4, 0)]
        \<and> allowOverlap (the_tracks s ! 0) = False
        \<and> clipOverlaps (clips (the_tracks s ! 0) ! 0) (clips (the_tracks s ! 0) ! 1) = False
        \<and> (case trimClip ''c'' 0 (-1) s of
              Inl e \<Rightarrow> False
            | Inr (b, s') \<Rightarrow>
                b = True
                \<and> map (\<lambda>c. (id_C c, start c, duration_C c, trimEnd c)) (clips (the_tracks s' ! 0))
                    = [(''c'', 0, 5, - 1), (''d'', 4, 4, 0)]
                \<and> allowOverlap (the_tracks s' ! 0) = False
                \<and> clipOverlaps (clips (the_tracks s' ! 0) ! 0) (clips (the_tracks s' ! 0) ! 1)))"
  by (simp add: model_defs)

section \<open>The frame query\<close>

lemma frameAt_clips_find:
  "frameAt_clips tm cs = map_option (frame_of tm) (find (contains_time tm) cs)"
  by (induction cs) (simp_all add: contains_time_def frame_of_def)

lemma find_append_cases:
  "find P (xs @ ys) = (case find P xs of None \<Rightarrow> find P ys | Some x \<Rightarrow> Some x)"
  by (induction xs) simp_all

lemma frameAt_tracks_find:
  "frameAt_tracks tm ts = frameAt_as_specified tm ts"
  by (induction ts)
     (simp_all add: frameAt_as_specified_def all_clips_def frameAt_clips_find find_append_cases
        split: option.splits)

lemma sort_clips_sorted: "sorted_by_start cs \<Longrightarrow> sort_clips cs = cs"
  by (simp add: sorted_by_start_def sort_clips_def sort_key_id_if_sorted)

lemma sorted_order_is_list_order:
  "all_sorted ts \<Longrightarrow> frameAt_in_sorted_order tm ts = frameAt_as_specified tm ts"
proof -
  assume s: "all_sorted ts"
  have "map (\<lambda>T. sort_clips (clips T)) (filter (\<lambda>T. kind_T T = TrackKind.Video) ts)
      = map clips (filter (\<lambda>T. kind_T T = TrackKind.Video) ts)"
    by (rule map_cong[OF refl]) (use s in \<open>auto simp: all_sorted_def list_all_iff sort_clips_sorted\<close>)
  then show ?thesis
    by (simp only: frameAt_in_sorted_order_def frameAt_as_specified_def all_clips_def)
qed

text \<open>
  C9 as stated fails: \<^verbatim>\<open>frameAt\<close> walks each track's clip list as it is stored, and the list
  need not be sorted. With the clip list \<^verbatim>\<open>a\<close> (7 to 8), \<^verbatim>\<open>b\<close> (5 to 7), stored by
  \<^verbatim>\<open>updateTrack\<close> as supplied or left by \<^verbatim>\<open>moveClip\<close> of \<^verbatim>\<open>a\<close> from 0 to 7, \<^verbatim>\<open>frameAt(7)\<close> is
  \<^verbatim>\<open>a\<close> at local time 0; the first clip containing 7 in order of start is \<^verbatim>\<open>b\<close>, at local
  time 2.
\<close>

theorem C9_counterexample:
  "(case calls [AddTrack (a_track ''v1'' []),
                UpdateTrack (a_track ''v1'' [a_clip ''a'' ''v1'' 7 1, a_clip ''b'' ''v1'' 5 2])]
          Timeline_init of
      Inl e \<Rightarrow> False
    | Inr (bs, s) \<Rightarrow>
        bs = [True, True]
        \<and> map (\<lambda>c. (id_C c, start c, endTime c)) (clips (the_tracks s ! 0))
            = [(''a'', 7, 8), (''b'', 5, 7)]
        \<and> frameAt 7 s = Some \<lparr>clipId = ''a'', localTime = 0, globalTime = 7\<rparr>
        \<and> frameAt_in_sorted_order 7 (the_tracks s)
            = Some \<lparr>clipId = ''b'', localTime = 2, globalTime = 7\<rparr>)
   \<and>
   (case calls [AddTrack (a_track ''v1'' []), UpsertClip (a_clip ''a'' ''v1'' 0 1),
                UpsertClip (a_clip ''b'' ''v1'' 5 2), MoveClip ''a'' ''v1'' 7] Timeline_init of
      Inl e \<Rightarrow> False
    | Inr (bs, s) \<Rightarrow>
        bs = [True, True, True, True]
        \<and> map (\<lambda>c. (id_C c, start c, endTime c)) (clips (the_tracks s ! 0))
            = [(''a'', 7, 8), (''b'', 5, 7)]
        \<and> frameAt 7 s = Some \<lparr>clipId = ''a'', localTime = 0, globalTime = 7\<rparr>
        \<and> frameAt_in_sorted_order 7 (the_tracks s)
            = Some \<lparr>clipId = ''b'', localTime = 2, globalTime = 7\<rparr>)"
  by (simp add: model_defs frameAt_def frameAt_in_sorted_order_def contains_time_def
      frame_of_def)

text \<open>
  C9, amended. \<^verbatim>\<open>frameAt(t)\<close> returns the frame of the first clip containing \<open>t\<close>
  (\<^verbatim>\<open>start \<le> t \<le> endTime\<close>), going through the tracks in order, through the Video tracks only,
  and through each track's clips in the order of its list: the clip's id, \<open>t - start\<close> and
  \<open>t\<close>. Where the clip lists are sorted by start, that is the first such clip in sorted
  order. It returns none if and only if no clip of a Video track contains \<open>t\<close>.
\<close>

theorem C9_frameAt_first_video_clip:
  "frameAt tm t = frameAt_as_specified tm (the_tracks t)
   \<and> (all_sorted (the_tracks t) \<longrightarrow> frameAt tm t = frameAt_in_sorted_order tm (the_tracks t))
   \<and> (frameAt tm t = None \<longleftrightarrow>
        (\<forall>T \<in> set (the_tracks t). kind_T T = TrackKind.Video \<longrightarrow>
           (\<forall>c \<in> set (clips T). \<not> contains_time tm c)))"
  by (auto simp: frameAt_def frameAt_tracks_find frameAt_as_specified_def all_clips_def
        find_None_iff sorted_order_is_list_order[unfolded frameAt_as_specified_def all_clips_def])

text \<open>Scenario S1: \<^verbatim>\<open>frameAt(4)\<close> is clip \<^verbatim>\<open>a\<close> at local time 4; at 6 there is no frame.\<close>

theorem C9_witness:
  "frameAt 4 (state_after [AddTrack (a_track ''v1'' []), UpsertClip (a_clip ''a'' ''v1'' 0 5)])
     = Some \<lparr>clipId = ''a'', localTime = 4, globalTime = 4\<rparr>
   \<and> frameAt_in_sorted_order 4
        (the_tracks (state_after [AddTrack (a_track ''v1'' []), UpsertClip (a_clip ''a'' ''v1'' 0 5)]))
     = Some \<lparr>clipId = ''a'', localTime = 4, globalTime = 4\<rparr>
   \<and> all_sorted
        (the_tracks (state_after [AddTrack (a_track ''v1'' []), UpsertClip (a_clip ''a'' ''v1'' 0 5)]))
   \<and> frameAt 6 (state_after [AddTrack (a_track ''v1'' []), UpsertClip (a_clip ''a'' ''v1'' 0 5)])
     = None
   \<and> the_tracks (state_after [AddTrack (a_track ''v1'' []), UpsertClip (a_clip ''a'' ''v1'' 0 5)])
     = [a_track ''v1'' [a_clip ''a'' ''v1'' 0 5]]
   \<and> contains_time 4 (a_clip ''a'' ''v1'' 0 5) \<and> \<not> contains_time 6 (a_clip ''a'' ''v1'' 0 5)"
proof -
  let ?t = "state_after [AddTrack (a_track ''v1'' []), UpsertClip (a_clip ''a'' ''v1'' 0 5)]"
  have ts: "the_tracks ?t = [a_track ''v1'' [a_clip ''a'' ''v1'' 0 5]]"
    by (simp add: state_after_def model_defs)
  have c4: "contains_time 4 (a_clip ''a'' ''v1'' 0 5)"
    and c6: "\<not> contains_time 6 (a_clip ''a'' ''v1'' 0 5)"
    by (simp_all add: contains_time_def a_clip_def Clip_init_def endTime_def)
  have so: "all_sorted (the_tracks ?t)"
    unfolding ts by (simp add: all_sorted_def sorted_by_start_def a_track_def Track_init_def)
  have s4: "frameAt_as_specified 4 (the_tracks ?t)
      = Some \<lparr>clipId = ''a'', localTime = 4, globalTime = 4\<rparr>"
    unfolding ts using c4
    by (simp add: frameAt_as_specified_def all_clips_def a_track_def Track_init_def frame_of_def
        a_clip_def Clip_init_def)
  have none6: "\<forall>T \<in> set (the_tracks ?t). kind_T T = TrackKind.Video \<longrightarrow>
      (\<forall>c \<in> set (clips T). \<not> contains_time 6 c)"
    unfolding ts using c6 by (simp add: a_track_def Track_init_def)
  have f4: "frameAt 4 ?t = Some \<lparr>clipId = ''a'', localTime = 4, globalTime = 4\<rparr>"
    using C9_frameAt_first_video_clip[of 4 ?t] s4 by simp
  have o4: "frameAt_in_sorted_order 4 (the_tracks ?t)
      = Some \<lparr>clipId = ''a'', localTime = 4, globalTime = 4\<rparr>"
    using C9_frameAt_first_video_clip[of 4 ?t] so f4 by metis
  have f6: "frameAt 6 ?t = None"
    using C9_frameAt_first_video_clip[of 6 ?t] none6 by blast
  show ?thesis using f4 o4 so f6 ts c4 c6 by simp
qed

section \<open>The cached duration\<close>

lemma fold_max_endTime:
  "fold (\<lambda>c m. max m (endTime c)) cs m = Max (insert m (endTime ` set cs))"
proof (induction cs arbitrary: m)
  case Nil
  show ?case by simp
next
  case (Cons c cs)
  have "Max (insert (max m (endTime c)) (endTime ` set cs))
      = Max (insert m (insert (endTime c) (endTime ` set cs)))"
    by (cases "set cs = {}") (simp_all add: max.assoc)
  with Cons show ?case by simp
qed

lemma Max_insert_Max:
  assumes "finite A" "finite B"
  shows "Max (insert (Max (insert m A)) B) = Max (insert m (A \<union> B))"
proof (cases "B = {}")
  case True
  then show ?thesis by simp
next
  case False
  have "Max (insert m A \<union> B) = max (Max (insert m A)) (Max B)"
    using assms False by (intro Max_Un) simp_all
  moreover have "Max (insert (Max (insert m A)) B) = max (Max (insert m A)) (Max B)"
    using assms False by simp
  ultimately show ?thesis by simp
qed

lemma fold_tracks_max:
  "fold (\<lambda>T m. fold (\<lambda>c m. max m (endTime c)) (clips T) m) ts m
     = Max (insert m (endTime ` set (all_clips ts)))"
proof (induction ts arbitrary: m)
  case Nil
  show ?case by (simp add: all_clips_def)
next
  case (Cons T ts)
  have "Max (insert (Max (insert m (endTime ` set (clips T)))) (endTime ` set (all_clips ts)))
      = Max (insert m (endTime ` set (clips T) \<union> endTime ` set (all_clips ts)))"
    by (rule Max_insert_Max) simp_all
  moreover have "all_clips (T # ts) = clips T @ all_clips ts" by (simp add: all_clips_def)
  ultimately show ?case using Cons[of "Max (insert m (endTime ` set (clips T)))"]
    by (simp add: fold_max_endTime image_Un)
qed

lemma max_endTime_Max: "max_endTime ts = Max (insert 0 (endTime ` set (all_clips ts)))"
  by (simp add: max_endTime_def fold_tracks_max)

lemma max_endTime_nonneg: "0 \<le> max_endTime ts"
  by (simp add: max_endTime_Max)

lemma edit_true_recomputes:
  assumes "recomputes_duration e" and "apply_edit e t = Inr (True, t')"
  shows "\<exists>u. t' = updateDuration u"
proof (cases e)
  case (UpsertClip c)
  with assms(2) show ?thesis
    by (auto simp: upsertClip_def Let_def split: sum.splits option.splits if_splits)
next
  case (MoveClip cid tid ns)
  with assms(2) show ?thesis
    by (auto simp: moveClip_def Let_def split: sum.splits option.splits if_splits prod.splits)
next
  case (TrimClip cid a b)
  with assms(2) show ?thesis
    by (auto simp: trimClip_def Let_def split: sum.splits option.splits if_splits)
next
  case (SplitClip cid off)
  with assms(2) show ?thesis
    by (auto simp: splitClip_def Let_def split: sum.splits option.splits if_splits)
next
  case (RippleDelete cid)
  with assms(2) show ?thesis
    by (auto simp: rippleDelete_def Let_def split: sum.splits option.splits if_splits)
qed (use assms(1) in simp_all)

text \<open>
  C3 as stated fails twice. A clip from -5 to -3 gives the duration 0, not the maximum end
  time -3: the running maximum of \<^verbatim>\<open>updateDuration\<close> starts at 0. And \<^verbatim>\<open>removeTrack\<close> (like
  \<^verbatim>\<open>addTrack\<close> and \<^verbatim>\<open>updateTrack\<close>) does not call \<^verbatim>\<open>updateDuration\<close>: after the only track is
  removed the duration is still 5.
\<close>

theorem C3_counterexample:
  "(case calls [AddTrack (a_track ''v1'' []), UpsertClip (a_clip ''a'' ''v1'' (-5) 2)]
          Timeline_init of
      Inl e \<Rightarrow> False
    | Inr (bs, s) \<Rightarrow>
        bs = [True, True] \<and> duration s = 0 \<and> duration_as_specified (the_tracks s) = - 3)
   \<and>
   (case calls [AddTrack (a_track ''v1'' []), UpsertClip (a_clip ''a'' ''v1'' 0 5),
                RemoveTrack ''v1''] Timeline_init of
      Inl e \<Rightarrow> False
    | Inr (bs, s) \<Rightarrow>
        bs = [True, True, True] \<and> duration s = 5 \<and> duration_as_specified (the_tracks s) = 0)"
  by (simp add: model_defs all_clips_def duration_as_specified_def)

text \<open>
  C3, amended. After every successful \<^verbatim>\<open>upsertClip\<close>, \<^verbatim>\<open>moveClip\<close>, \<^verbatim>\<open>trimClip\<close>, \<^verbatim>\<open>splitClip\<close>
  and \<^verbatim>\<open>rippleDelete\<close>, \<^verbatim>\<open>Sequence.duration\<close> is the maximum of 0 and the end times of all
  clips in all tracks.
\<close>

theorem C3_duration_after_recomputing_edit:
  assumes "recomputes_duration e" and "apply_edit e t = Inr (True, t')"
  shows "duration t' = Max (insert 0 (endTime ` set (all_clips (the_tracks t'))))"
proof -
  from edit_true_recomputes[OF assms] obtain u where "t' = updateDuration u" ..
  then show ?thesis by (simp add: max_endTime_Max)
qed

text \<open>The upsert of the clip from -5 to -3 ends with duration 0.\<close>

theorem C3_witness:
  "recomputes_duration (UpsertClip (a_clip ''a'' ''v1'' (-5) 2))
   \<and> (case apply_edit (UpsertClip (a_clip ''a'' ''v1'' (-5) 2)) (state_after [AddTrack (a_track ''v1'' [])]) of
        Inl e \<Rightarrow> False
      | Inr (b, t') \<Rightarrow> b \<and> duration t' = Max (insert 0 (endTime ` set (all_clips (the_tracks t'))))
           \<and> duration t' = 0)"
proof -
  let ?e = "UpsertClip (a_clip ''a'' ''v1'' (-5) 2)"
  let ?t = "state_after [AddTrack (a_track ''v1'' [])]"
  have h: "recomputes_duration ?e" by simp
  obtain t' where r: "apply_edit ?e ?t = Inr (True, t')"
    by (simp add: state_after_def model_defs)
  have "duration t' = 0" using r by (auto simp: state_after_def model_defs)
  then show ?thesis using C3_duration_after_recomputing_edit[OF h r] h r[simplified]
    by simp
qed

lemma edit_duration:
  assumes "apply_edit e t = Inr (b, t')"
  shows "duration t' = duration t \<or> (\<exists>u. t' = updateDuration u)"
proof (cases e)
  case (AddTrack T)
  with assms show ?thesis
    by (auto simp: addTrack_def Let_def split: if_splits)
next
  case (UpdateTrack T)
  with assms show ?thesis
    by (auto simp: updateTrack_def Let_def split: sum.splits option.splits if_splits)
next
  case (RemoveTrack tid)
  with assms show ?thesis
    by (auto simp: removeTrack_def Let_def split: sum.splits option.splits if_splits)
next
  case (UpsertClip c)
  with assms show ?thesis
    by (auto simp: upsertClip_def Let_def split: sum.splits option.splits if_splits)
next
  case (MoveClip cid tid ns)
  with assms show ?thesis
    by (auto simp: moveClip_def Let_def split: sum.splits option.splits if_splits prod.splits)
next
  case (TrimClip cid a b)
  with assms show ?thesis
    by (auto simp: trimClip_def Let_def split: sum.splits option.splits if_splits)
next
  case (SplitClip cid off)
  with assms show ?thesis
    by (auto simp: splitClip_def Let_def split: sum.splits option.splits if_splits)
next
  case (RippleDelete cid)
  with assms show ?thesis
    by (auto simp: rippleDelete_def Let_def split: sum.splits option.splits if_splits)
qed

lemma reachable_calls:
  "reachable t \<Longrightarrow> calls es t = Inr (bs, t') \<Longrightarrow> reachable t'"
proof (induction es arbitrary: t bs)
  case Nil
  then show ?case by simp
next
  case (Cons e es)
  then show ?case
    by (auto split: sum.splits prod.splits intro: reachable.edit)
qed

lemma reachable_state_after: "reachable (state_after es)"
  by (auto simp: state_after_def split: sum.splits intro: reachable.fresh reachable_calls)

text \<open>
  C10. In every state a host can reach, \<^verbatim>\<open>duration()\<close> is not negative; and when every clip
  ends before 0, \<^verbatim>\<open>updateDuration\<close> stores 0.
\<close>

theorem C10_duration_never_negative:
  "(reachable t \<longrightarrow> 0 \<le> duration t)
   \<and> ((\<forall>c \<in> set (all_clips (the_tracks t)). endTime c < 0) \<longrightarrow> duration (updateDuration t) = 0)"
proof
  show "reachable t \<longrightarrow> 0 \<le> duration t"
  proof
    assume "reachable t"
    then show "0 \<le> duration t"
    proof (induction rule: reachable.induct)
      case fresh
      show ?case by (simp add: duration_def Timeline_init_def Sequence_init_def)
    next
      case (metadata t w h f sr)
      then show ?case by simp
    next
      case (edit t e b t')
      from edit_duration[OF edit.hyps(2)] edit.IH show ?case
        by (auto simp: max_endTime_nonneg)
    qed
  qed
next
  show "(\<forall>c \<in> set (all_clips (the_tracks t)). endTime c < 0) \<longrightarrow> duration (updateDuration t) = 0"
  proof
    assume neg: "\<forall>c \<in> set (all_clips (the_tracks t)). endTime c < 0"
    have "Max (insert 0 (endTime ` set (all_clips (the_tracks t)))) = 0"
      by (rule Max_eqI) (use neg in \<open>auto intro: less_imp_le\<close>)
    then show "duration (updateDuration t) = 0" by (simp add: max_endTime_Max)
  qed
qed

text \<open>The state after upserting a clip from -5 to -3 is reachable and has duration 0.\<close>

theorem C10_witness:
  "reachable (state_after [AddTrack (a_track ''v1'' []), UpsertClip (a_clip ''a'' ''v1'' (-5) 2)])
   \<and> 0 \<le> duration (state_after [AddTrack (a_track ''v1'' []), UpsertClip (a_clip ''a'' ''v1'' (-5) 2)])
   \<and> map endTime (all_clips (the_tracks
        (state_after [AddTrack (a_track ''v1'' []), UpsertClip (a_clip ''a'' ''v1'' (-5) 2)]))) = [- 3]
   \<and> duration (updateDuration
        (state_after [AddTrack (a_track ''v1'' []), UpsertClip (a_clip ''a'' ''v1'' (-5) 2)])) = 0"
proof -
  let ?t = "state_after [AddTrack (a_track ''v1'' []), UpsertClip (a_clip ''a'' ''v1'' (-5) 2)]"
  have r: "reachable ?t" by (rule reachable_state_after)
  have ts: "the_tracks ?t = [a_track ''v1'' [a_clip ''a'' ''v1'' (-5) 2]]"
    by (simp add: state_after_def model_defs)
  have e: "map endTime (all_clips (the_tracks ?t)) = [- 3]"
    unfolding ts
    by (simp add: all_clips_def a_track_def a_clip_def Track_init_def Clip_init_def endTime_def)
  have "\<forall>x \<in> set (map endTime (all_clips (the_tracks ?t))). x < 0" unfolding e by simp
  then have n: "\<forall>c \<in> set (all_clips (the_tracks ?t)). endTime c < 0" by simp
  show ?thesis using C10_duration_never_negative[of ?t] r n e by blast
qed

section \<open>The indices\<close>

subsection \<open>What the rebuilt indices hold\<close>

lemma fold_track_index_None:
  "fold (\<lambda>(t, T) m. m(id_T T \<mapsto> t)) (enumerate n ts) m k = None
     \<longleftrightarrow> m k = None \<and> k \<notin> id_T ` set ts"
  by (induction ts arbitrary: n m) auto

lemma fold_track_index_Some:
  "fold (\<lambda>(t, T) m. m(id_T T \<mapsto> t)) (enumerate n ts) m k = Some i \<Longrightarrow>
   m k = Some i \<or> (n \<le> i \<and> i < n + length ts \<and> id_T (ts ! (i - n)) = k)"
proof (induction ts arbitrary: n m)
  case Nil
  then show ?case by simp
next
  case (Cons T ts)
  from Cons.prems have "fold (\<lambda>(t, T) m. m(id_T T \<mapsto> t)) (enumerate (Suc n) ts) (m(id_T T \<mapsto> n)) k = Some i"
    by (simp del: fun_upd_apply)
  from Cons.IH[OF this] show ?case
    by (auto simp: nth_Cons' split: if_splits)
qed

lemma index_tracks_None: "index_tracks ts k = None \<longleftrightarrow> k \<notin> id_T ` set ts"
  by (simp add: index_tracks_def fold_track_index_None)

lemma index_tracks_Some:
  "index_tracks ts k = Some i \<Longrightarrow> i < length ts \<and> id_T (ts ! i) = k"
  using fold_track_index_Some[of 0 ts Map.empty k i] by (simp add: index_tracks_def)

lemma fold_clip_index_None:
  "fold (\<lambda>(c, C) m. m(id_C C \<mapsto> (t, c))) (enumerate n cs) m k = None
     \<longleftrightarrow> m k = None \<and> k \<notin> id_C ` set cs"
  by (induction cs arbitrary: n m) auto

lemma fold_clip_index_Some:
  "fold (\<lambda>(c, C) m. m(id_C C \<mapsto> (t, c))) (enumerate n cs) m k = Some (i, j) \<Longrightarrow>
   m k = Some (i, j) \<or> (i = t \<and> n \<le> j \<and> j < n + length cs \<and> id_C (cs ! (j - n)) = k)"
proof (induction cs arbitrary: n m)
  case Nil
  then show ?case by simp
next
  case (Cons C cs)
  from Cons.prems have "fold (\<lambda>(c, C) m. m(id_C C \<mapsto> (t, c))) (enumerate (Suc n) cs) (m(id_C C \<mapsto> (t, n))) k = Some (i, j)"
    by (simp del: fun_upd_apply)
  from Cons.IH[OF this] show ?case
    by (auto simp: nth_Cons' split: if_splits)
qed

lemma index_clips_of_None:
  "index_clips_of t cs m k = None \<longleftrightarrow> m k = None \<and> k \<notin> id_C ` set cs"
  by (simp add: index_clips_of_def fold_clip_index_None)

lemma index_clips_of_Some:
  "index_clips_of t cs m k = Some (i, j) \<Longrightarrow>
   m k = Some (i, j) \<or> (i = t \<and> j < length cs \<and> id_C (cs ! j) = k)"
  using fold_clip_index_Some[of t 0 cs m k i j] by (simp add: index_clips_of_def)

lemma fold_tracks_clip_index_None:
  "fold (\<lambda>(t, T) m. index_clips_of t (clips T) m) (enumerate n ts) m k = None
     \<longleftrightarrow> m k = None \<and> k \<notin> id_C ` set (all_clips ts)"
  by (induction ts arbitrary: n m) (auto simp: all_clips_def index_clips_of_None)

lemma fold_tracks_clip_index_Some:
  "fold (\<lambda>(t, T) m. index_clips_of t (clips T) m) (enumerate n ts) m k = Some (i, j) \<Longrightarrow>
   m k = Some (i, j)
   \<or> (n \<le> i \<and> i < n + length ts \<and> j < length (clips (ts ! (i - n)))
      \<and> id_C (clips (ts ! (i - n)) ! j) = k)"
proof (induction ts arbitrary: n m)
  case Nil
  then show ?case by simp
next
  case (Cons T ts)
  from Cons.prems have "fold (\<lambda>(t, T) m. index_clips_of t (clips T) m) (enumerate (Suc n) ts)
      (index_clips_of n (clips T) m) k = Some (i, j)"
    by simp
  from Cons.IH[OF this] show ?case
  proof
    assume "index_clips_of n (clips T) m k = Some (i, j)"
    from index_clips_of_Some[OF this] show ?thesis by auto
  next
    assume "Suc n \<le> i \<and> i < Suc n + length ts \<and> j < length (clips (ts ! (i - Suc n)))
      \<and> id_C (clips (ts ! (i - Suc n)) ! j) = k"
    then show ?thesis by (auto simp: nth_Cons' split: if_splits)
  qed
qed

lemma index_clips_None: "index_clips ts k = None \<longleftrightarrow> k \<notin> id_C ` set (all_clips ts)"
  by (simp add: index_clips_def fold_tracks_clip_index_None)

lemma index_clips_Some:
  "index_clips ts k = Some (i, j) \<Longrightarrow>
   i < length ts \<and> j < length (clips (ts ! i)) \<and> id_C (clips (ts ! i) ! j) = k"
  using fold_tracks_clip_index_Some[of 0 ts Map.empty k i j] by (simp add: index_clips_def)


subsection \<open>The tracks after a successful call\<close>

lemma set_clips_twice [simp]:
  "set_clips i cs (set_clips i cs' ts) = set_clips i cs ts"
  by (cases "i < length ts") (simp_all add: set_clips_def list_update_beyond)

lemma the_tracks_trackIndex_update [simp]: "the_tracks (t\<lparr>trackIndex_m := m\<rparr>) = the_tracks t"
  by (simp add: the_tracks_def)

lemma index_put_clip [simp]:
  "trackIndex_m (put_clip p c t) = trackIndex_m t"
  "clipIndex_m (put_clip p c t) = clipIndex_m t"
  by (simp_all add: put_clip_def)

lemma addTrack_tracks:
  assumes "addTrack T t = Inr (True, t')"
  shows "trackIndex_m t (id_T T) = None \<and> the_tracks t' = the_tracks t @ [T]"
  using assms by (auto simp: addTrack_def Let_def split: if_splits)

lemma updateTrack_tracks:
  assumes "updateTrack T t = Inr (True, t')"
  shows "\<exists>i. trackIndex_m t (id_T T) = Some i \<and> i < length (the_tracks t)
           \<and> the_tracks t' = (the_tracks t)[i := T]"
  using assms
  by (auto simp: updateTrack_def findTrack_def Let_def split: sum.splits option.splits if_splits)

lemma removeTrack_tracks:
  assumes "removeTrack tid t = Inr (True, t')"
  shows "\<exists>i. trackIndex_m t tid = Some i \<and> i < length (the_tracks t)
           \<and> the_tracks t' = erase i (the_tracks t)"
  using assms
  by (auto simp: removeTrack_def Let_def split: option.splits if_splits)

lemma upsertClip_tracks:
  assumes "upsertClip c t = Inr (True, t')"
  shows "\<exists>i. trackIndex_m t (trackId c) = Some i \<and> i < length (the_tracks t)
     \<and> ((clipIndex_m t (id_C c) = None
          \<and> the_tracks t' = set_clips i (sort_clips (clips (the_tracks t ! i) @ [c])) (the_tracks t))
        \<or> (\<exists>p. clipIndex_m t (id_C c) = Some p \<and> fst p < length (the_tracks t)
              \<and> snd p < length (clips (the_tracks t ! fst p))
              \<and> the_tracks t' =
                  set_clips i (sort_clips (clips (the_tracks (put_clip p c t) ! i)))
                    (the_tracks (put_clip p c t))))"
  using assms
  by (auto simp: upsertClip_def findTrack_def sort_track_def Let_def
      split: sum.splits option.splits if_splits)

lemma moveClip_tracks:
  assumes "moveClip cid tid newStart t = Inr (True, t')"
  shows "\<exists>p tt. clipIndex_m t cid = Some p \<and> fst p < length (the_tracks t)
     \<and> snd p < length (clips (the_tracks t ! fst p))
     \<and> trackIndex_m t tid = Some tt \<and> tt < length (the_tracks t)
     \<and> the_tracks t' = the_tracks (put_clip p ((clip_at p t)\<lparr>trackId := tid, start := newStart\<rparr>) t)"
  using assms
  by (auto simp: moveClip_def findTrack_def findClip_def Let_def
      split: sum.splits option.splits if_splits prod.splits)

lemma trimClip_tracks:
  assumes "trimClip cid dStart dEnd t = Inr (True, t')"
  shows "\<exists>p. clipIndex_m t cid = Some p \<and> fst p < length (the_tracks t)
     \<and> snd p < length (clips (the_tracks t ! fst p))
     \<and> the_tracks t' = the_tracks (put_clip p ((clip_at p t)\<lparr>
            trimStart := trimStart (clip_at p t) + dStart,
            trimEnd := trimEnd (clip_at p t) + dEnd,
            duration_C := max 0 (duration_C (clip_at p t) - dStart - dEnd)\<rparr>) t)"
  using assms
  by (auto simp: trimClip_def findClip_def Let_def
      split: sum.splits option.splits if_splits prod.splits)

lemma clip_at_pushUndo [simp]: "clip_at p (pushUndo t) = clip_at p t"
  by (simp add: clip_at_def)

lemma clip_at_put_clip_same:
  "fst p < length (the_tracks t) \<Longrightarrow> snd p < length (clips (the_tracks t ! fst p)) \<Longrightarrow>
   clip_at p (put_clip p c t) = c"
  by (simp add: clip_at_def)

lemma splitClip_tracks:
  assumes "splitClip cid offsetSeconds t = Inr (True, t')"
  shows "\<exists>p i. clipIndex_m t cid = Some p \<and> fst p < length (the_tracks t)
     \<and> snd p < length (clips (the_tracks t ! fst p))
     \<and> trackIndex_m t (trackId (clip_at p t)) = Some i \<and> i < length (the_tracks t)
     \<and> the_tracks t' =
         (let clip = clip_at p t;
              ts2 = the_tracks (put_clip p (clip\<lparr>duration_C := offsetSeconds,
                      trimEnd := trimEnd clip + (duration_C clip - offsetSeconds)\<rparr>) t)
          in set_clips i (sort_clips (clips (ts2 ! i) @
               [clip\<lparr>id_C := id_C clip @ ''_b'', start := start clip + offsetSeconds,
                     trimStart := trimStart clip + offsetSeconds,
                     duration_C := duration_C clip - offsetSeconds\<rparr>])) ts2)"
  using assms
  by (auto simp: splitClip_def findClip_def findTrack_def Let_def sort_track_def
      clip_at_put_clip_same
      split: sum.splits option.splits if_splits prod.splits)

lemma rippleDelete_tracks:
  assumes "rippleDelete cid t = Inr (True, t')"
  shows "\<exists>p i. clipIndex_m t cid = Some p \<and> fst p < length (the_tracks t)
     \<and> snd p < length (clips (the_tracks t ! fst p))
     \<and> trackIndex_m t (trackId (clip_at p t)) = Some i \<and> i < length (the_tracks t)
     \<and> snd p < length (clips (the_tracks t ! i))
     \<and> the_tracks t' =
         ripple_loop p (start (clip_at p t)) i (duration_C (clip_at p t))
           (set_clips i (erase (snd p) (clips (the_tracks t ! i))) (the_tracks t))"
  using assms
  by (auto simp: rippleDelete_def findClip_def findTrack_def Let_def
      split: sum.splits option.splits if_splits prod.splits)


subsection \<open>Order\<close>

lemma sorted_sort_clips [simp]: "sorted_by_start (sort_clips cs)"
  by (simp add: sorted_by_start_def sort_clips_def)

lemma all_sorted_set_clips:
  "all_sorted ts \<Longrightarrow> sorted_by_start cs \<Longrightarrow> all_sorted (set_clips i cs ts)"
  using set_update_subset_insert[of ts i "(ts ! i)\<lparr>clips := cs\<rparr>"]
  by (auto simp: all_sorted_def set_clips_def list_all_iff)

lemma all_sorted_nth:
  "all_sorted ts \<Longrightarrow> i < length ts \<Longrightarrow> sorted_by_start (clips (ts ! i))"
  by (simp add: all_sorted_def list_all_length)

lemma map_update_same:
  "f c = f (cs ! j) \<Longrightarrow> map f (cs[j := c]) = map f cs"
proof (cases "j < length cs")
  case True
  assume "f c = f (cs ! j)"
  then have "map f (cs[j := c]) = (map f cs)[j := map f cs ! j]"
    using True by (simp add: map_update)
  then show ?thesis by (simp only: list_update_id)
next
  case False
  then show ?thesis by (simp add: list_update_beyond)
qed

lemma sorted_by_start_update:
  "sorted_by_start cs \<Longrightarrow> start c = start (cs ! j) \<Longrightarrow> sorted_by_start (cs[j := c])"
  by (simp add: sorted_by_start_def map_update_same)

lemma all_sorted_put_clip:
  assumes "all_sorted (the_tracks t)" "fst p < length (the_tracks t)"
    "start c = start (clip_at p t)"
  shows "all_sorted (the_tracks (put_clip p c t))"
  using assms
  by (simp add: all_sorted_set_clips sorted_by_start_update all_sorted_nth clip_at_def)

lemma all_sorted_erase: "all_sorted ts \<Longrightarrow> all_sorted (erase i ts)"
  by (auto simp: all_sorted_def erase_def list_all_iff dest: in_set_takeD in_set_dropD)

lemma all_sorted_update:
  "all_sorted ts \<Longrightarrow> sorted_by_start (clips T) \<Longrightarrow> all_sorted (ts[i := T])"
  using set_update_subset_insert[of ts i T] by (auto simp: all_sorted_def list_all_iff)

lemma resorted_is_sorted:
  assumes "apply_edit e t = Inr (True, t')" and "resorted_track e t = Some i"
  shows "sorted_by_start (clips (the_tracks t' ! i))"
proof (cases e)
  case (UpsertClip c)
  with assms have r: "upsertClip c t = Inr (True, t')" and i: "trackIndex_m t (trackId c) = Some i"
    by simp_all
  from upsertClip_tracks[OF r] i show ?thesis by auto
next
  case (SplitClip cid off)
  with assms have r: "splitClip cid off t = Inr (True, t')" by simp
  from splitClip_tracks[OF r] assms(2) SplitClip show ?thesis
    by (auto simp: Let_def)
qed (use assms(2) in simp_all)

lemma order_kept:
  assumes "all_sorted (the_tracks t)" and "keeps_order e t" and "apply_edit e t = Inr (True, t')"
  shows "all_sorted (the_tracks t')"
proof (cases e)
  case (AddTrack T)
  with assms have "addTrack T t = Inr (True, t')" "sorted_by_start (clips T)" by simp_all
  with addTrack_tracks[of T t t'] assms(1) show ?thesis by (simp add: all_sorted_def)
next
  case (UpdateTrack T)
  with assms have "updateTrack T t = Inr (True, t')" "sorted_by_start (clips T)" by simp_all
  with updateTrack_tracks[of T t t'] assms(1) show ?thesis by (auto simp: all_sorted_update)
next
  case (RemoveTrack tid)
  with assms have "removeTrack tid t = Inr (True, t')" by simp
  with removeTrack_tracks[of tid t t'] assms(1) show ?thesis by (auto simp: all_sorted_erase)
next
  case (UpsertClip c)
  with assms have r: "upsertClip c t = Inr (True, t')" by simp
  from upsertClip_tracks[OF r] obtain i where i: "trackIndex_m t (trackId c) = Some i"
    "i < length (the_tracks t)"
    and d: "(clipIndex_m t (id_C c) = None
          \<and> the_tracks t' = set_clips i (sort_clips (clips (the_tracks t ! i) @ [c])) (the_tracks t))
        \<or> (\<exists>p. clipIndex_m t (id_C c) = Some p \<and> fst p < length (the_tracks t)
              \<and> snd p < length (clips (the_tracks t ! fst p))
              \<and> the_tracks t' =
                  set_clips i (sort_clips (clips (the_tracks (put_clip p c t) ! i)))
                    (the_tracks (put_clip p c t)))"
    by blast
  from d show ?thesis
  proof
    assume "clipIndex_m t (id_C c) = None
          \<and> the_tracks t' = set_clips i (sort_clips (clips (the_tracks t ! i) @ [c])) (the_tracks t)"
    with assms(1) show ?thesis by (simp add: all_sorted_set_clips)
  next
    assume "\<exists>p. clipIndex_m t (id_C c) = Some p \<and> fst p < length (the_tracks t)
              \<and> snd p < length (clips (the_tracks t ! fst p))
              \<and> the_tracks t' =
                  set_clips i (sort_clips (clips (the_tracks (put_clip p c t) ! i)))
                    (the_tracks (put_clip p c t))"
    then obtain p where p: "clipIndex_m t (id_C c) = Some p"
      and t': "the_tracks t' = set_clips i (sort_clips (clips (the_tracks (put_clip p c t) ! i)))
                    (the_tracks (put_clip p c t))"
      by blast
    from assms(2) UpsertClip p i have "fst p = i" by simp
    with t' assms(1) show ?thesis by (simp add: all_sorted_set_clips)
  qed
next
  case (TrimClip cid a b)
  with assms have r: "trimClip cid a b t = Inr (True, t')" by simp
  from trimClip_tracks[OF r] assms(1) show ?thesis
    by (auto intro!: all_sorted_put_clip simp del: the_tracks_put_clip)
next
  case (SplitClip cid off)
  with assms have r: "splitClip cid off t = Inr (True, t')" by simp
  from splitClip_tracks[OF r] assms(1) show ?thesis
    by (auto simp: Let_def simp del: the_tracks_put_clip
        intro!: all_sorted_set_clips all_sorted_put_clip)
qed (use assms(2) in simp_all)

text \<open>
  C6 as stated fails. \<^verbatim>\<open>updateTrack\<close> stores the caller's clip list as it is (starts 5, 0).
  \<^verbatim>\<open>moveClip\<close> writes the new start in place and does not sort (starts 7, 5 after moving
  \<^verbatim>\<open>a\<close> from 0 to 7 on its own track). \<^verbatim>\<open>rippleDelete\<close> does not sort either: on an overlap
  track with starts 4, 5, 6, deleting the clip at 5 of duration 10 leaves 4, 0. And
  \<^verbatim>\<open>upsertClip\<close> of an existing clip onto another track overwrites the clip where it is and
  sorts the other track (starts 10, 5 on the track it was in).
\<close>

theorem C6_counterexample:
  "(case calls [AddTrack (a_track ''v1'' []),
                UpdateTrack (a_track ''v1'' [a_clip ''a'' ''v1'' 5 1, a_clip ''b'' ''v1'' 0 1])]
          Timeline_init of
      Inl e \<Rightarrow> False
    | Inr (bs, s) \<Rightarrow>
        bs = [True, True] \<and> map start (clips (the_tracks s ! 0)) = [5, 0]
        \<and> \<not> sorted_by_start (clips (the_tracks s ! 0)))
   \<and>
   (case calls [AddTrack (a_track ''v1'' []), UpsertClip (a_clip ''a'' ''v1'' 0 1),
                UpsertClip (a_clip ''b'' ''v1'' 5 1), MoveClip ''a'' ''v1'' 7] Timeline_init of
      Inl e \<Rightarrow> False
    | Inr (bs, s) \<Rightarrow>
        bs = [True, True, True, True] \<and> map start (clips (the_tracks s ! 0)) = [7, 5]
        \<and> \<not> sorted_by_start (clips (the_tracks s ! 0)))
   \<and>
   (case calls [AddTrack ((a_track ''v1'' [])\<lparr>allowOverlap := True\<rparr>),
                UpsertClip (a_clip ''a'' ''v1'' 4 1), UpsertClip (a_clip ''x'' ''v1'' 5 10),
                UpsertClip (a_clip ''n'' ''v1'' 6 1), RippleDelete ''x''] Timeline_init of
      Inl e \<Rightarrow> False
    | Inr (bs, s) \<Rightarrow>
        bs = [True, True, True, True, True] \<and> map start (clips (the_tracks s ! 0)) = [4, 0]
        \<and> \<not> sorted_by_start (clips (the_tracks s ! 0)))
   \<and>
   (case calls [AddTrack (a_track ''v1'' []), AddTrack (a_track ''v2'' []),
                UpsertClip (a_clip ''x'' ''v1'' 0 1), UpsertClip (a_clip ''y'' ''v1'' 5 1),
                UpsertClip (a_clip ''x'' ''v2'' 10 1)] Timeline_init of
      Inl e \<Rightarrow> False
    | Inr (bs, s) \<Rightarrow>
        bs = [True, True, True, True, True] \<and> map start (clips (the_tracks s ! 0)) = [10, 5]
        \<and> \<not> sorted_by_start (clips (the_tracks s ! 0)))"
  by (simp add: model_defs sorted_by_start_def)

text \<open>
  C6, amended. After a successful \<^verbatim>\<open>upsertClip\<close> the target track's clip list, and after a
  successful \<^verbatim>\<open>splitClip\<close> the clip list of the track the clip's \<^verbatim>\<open>trackId\<close> names, is sorted
  ascending by start. If every track's clip list is sorted before the call, every track's
  clip list is sorted after a successful \<^verbatim>\<open>removeTrack\<close>, \<^verbatim>\<open>trimClip\<close> or \<^verbatim>\<open>splitClip\<close>, after
  a successful \<^verbatim>\<open>upsertClip\<close> of a new clip or of a clip that lives in the target track, and
  after a successful \<^verbatim>\<open>addTrack\<close> or \<^verbatim>\<open>updateTrack\<close> whose clip list is sorted.
\<close>

theorem C6_sorted_where_the_code_sorts:
  "(apply_edit e t = Inr (True, t') \<and> resorted_track e t = Some i
      \<longrightarrow> sorted_by_start (clips (the_tracks t' ! i)))
   \<and> (all_sorted (the_tracks t) \<and> keeps_order e t \<and> apply_edit e t = Inr (True, t')
      \<longrightarrow> all_sorted (the_tracks t'))"
  using resorted_is_sorted order_kept by blast

text \<open>Upserting \<^verbatim>\<open>b\<close> at 5 onto a track holding \<^verbatim>\<open>a\<close> at 7 gives \<^verbatim>\<open>b\<close>, \<^verbatim>\<open>a\<close>.\<close>

theorem C6_witness:
  "all_sorted (the_tracks (state_after [AddTrack (a_track ''v1'' []), UpsertClip (a_clip ''a'' ''v1'' 7 1)]))
   \<and> keeps_order (UpsertClip (a_clip ''b'' ''v1'' 5 1))
        (state_after [AddTrack (a_track ''v1'' []), UpsertClip (a_clip ''a'' ''v1'' 7 1)])
   \<and> resorted_track (UpsertClip (a_clip ''b'' ''v1'' 5 1))
        (state_after [AddTrack (a_track ''v1'' []), UpsertClip (a_clip ''a'' ''v1'' 7 1)]) = Some 0
   \<and> (case apply_edit (UpsertClip (a_clip ''b'' ''v1'' 5 1))
             (state_after [AddTrack (a_track ''v1'' []), UpsertClip (a_clip ''a'' ''v1'' 7 1)]) of
        Inl e \<Rightarrow> False
      | Inr (b, t') \<Rightarrow>
          b \<and> sorted_by_start (clips (the_tracks t' ! 0)) \<and> all_sorted (the_tracks t')
          \<and> map id_C (clips (the_tracks t' ! 0)) = [''b'', ''a''])"
proof -
  let ?t = "state_after [AddTrack (a_track ''v1'' []), UpsertClip (a_clip ''a'' ''v1'' 7 1)]"
  let ?e = "UpsertClip (a_clip ''b'' ''v1'' 5 1)"
  have s: "all_sorted (the_tracks ?t)"
    by (simp add: state_after_def model_defs all_sorted_def sorted_by_start_def)
  have k: "keeps_order ?e ?t" by (simp add: state_after_def model_defs)
  have i: "resorted_track ?e ?t = Some 0" by (simp add: state_after_def model_defs)
  obtain t' where r: "apply_edit ?e ?t = Inr (True, t')"
    by (simp add: state_after_def model_defs)
  have ids: "map id_C (clips (the_tracks t' ! 0)) = [''b'', ''a'']"
    using r by (auto simp: state_after_def model_defs)
  from C6_sorted_where_the_code_sorts[of ?e ?t t' 0] r i s k
  have "sorted_by_start (clips (the_tracks t' ! 0)) \<and> all_sorted (the_tracks t')" by blast
  then show ?thesis using s k i ids r[simplified] by simp
qed

section \<open>Unique identifiers\<close>

subsection \<open>Lists and multisets\<close>

lemma mset_concat_update:
  "i < length xss \<Longrightarrow> mset (concat (xss[i := ys])) + mset (xss ! i) = mset (concat xss) + mset ys"
proof (induction xss arbitrary: i)
  case Nil
  then show ?case by simp
next
  case (Cons a xss)
  then show ?case by (cases i) (simp_all add: ac_simps)
qed

lemma distinct_iff_count: "distinct xs \<longleftrightarrow> (\<forall>a. count (mset xs) a \<le> 1)"
  by (metis One_nat_def bot_nat_0.extremum count_mset_0_iff
    distinct_count_atmost_1 not0_implies_Suc not_less_eq_eq)

lemma distinct_mset_subset:
  assumes "mset xs \<subseteq># mset ys" and "distinct ys"
  shows "distinct xs"
  unfolding distinct_iff_count
proof
  fix a
  have "count (mset xs) a \<le> count (mset ys) a" using assms(1) by (rule mset_subset_eq_count)
  also have "\<dots> \<le> 1" using assms(2) by (simp add: distinct_iff_count)
  finally show "count (mset xs) a \<le> 1" .
qed

lemma mset_erase_subset: "mset (erase j xs) \<subseteq># mset xs"
proof (cases "j < length xs")
  case True
  have "xs = take j xs @ xs ! j # drop (Suc j) xs" using True by (rule id_take_nth_drop)
  then have "mset xs = mset (erase j xs) + {#xs ! j#}"
    by (metis erase_def mset.simps(2) mset_append union_mset_add_mset_right add.right_neutral
        add_mset_add_single)
  then show ?thesis by simp
next
  case False
  then show ?thesis by (simp add: erase_def)
qed

lemma mset_concat_erase_subset: "mset (concat (erase i xss)) \<subseteq># mset (concat xss)"
proof (cases "i < length xss")
  case True
  have "xss = take i xss @ xss ! i # drop (Suc i) xss" using True by (rule id_take_nth_drop)
  then have "concat xss = concat (take i xss) @ xss ! i @ concat (drop (Suc i) xss)"
    by (metis concat.simps(2) concat_append)
  then have "mset (concat xss) = mset (concat (erase i xss)) + mset (xss ! i)"
    by (simp add: erase_def)
  then show ?thesis by simp
next
  case False
  then show ?thesis by (simp add: erase_def)
qed

lemma multiset_shrink:
  "(M' :: 'a multiset) + A = M + B \<Longrightarrow> B \<subseteq># A \<Longrightarrow> M' \<subseteq># M"
  by (metis subset_mset.add_le_cancel_left subset_mset.add_le_cancel_right)

lemma distinct_concat_update:
  assumes "distinct (concat xss)" and "mset ys \<subseteq># mset (xss ! i)"
  shows "distinct (concat (xss[i := ys]))"
proof (cases "i < length xss")
  case True
  from mset_concat_update[OF True, of ys] assms(2)
  have "mset (concat (xss[i := ys])) \<subseteq># mset (concat xss)" by (rule multiset_shrink)
  then show ?thesis using assms(1) by (rule distinct_mset_subset)
next
  case False
  then show ?thesis using assms(1) by (simp add: list_update_beyond)
qed

lemma distinct_concat_update_add:
  assumes "distinct (concat xss)" and "i < length xss"
    and "mset ys = mset (xss ! i) + {#k#}" and "k \<notin> set (concat xss)"
  shows "distinct (concat (xss[i := ys]))"
proof -
  from mset_concat_update[OF assms(2), of ys] assms(3)
  have "mset (concat (xss[i := ys])) + mset (xss ! i) = mset (k # concat xss) + mset (xss ! i)"
    by simp
  then have "mset (concat (xss[i := ys])) = mset (k # concat xss)" by simp
  moreover have "distinct (k # concat xss)" using assms(1,4) by simp
  ultimately show ?thesis using mset_eq_imp_distinct_iff by blast
qed


subsection \<open>Identifiers under the writes of the operations\<close>

lemma clip_ids_concat: "clip_ids t = concat (clip_ids_by_track (the_tracks t))"
  by (simp add: clip_ids_def all_clips_def clip_ids_by_track_def map_concat comp_def)

lemma clip_ids_by_track_set_clips:
  "clip_ids_by_track (set_clips i cs ts) = (clip_ids_by_track ts)[i := map id_C cs]"
  by (simp add: clip_ids_by_track_def set_clips_def map_update)

lemma clip_ids_by_track_nth:
  "i < length ts \<Longrightarrow> clip_ids_by_track ts ! i = map id_C (clips (ts ! i))"
  by (simp add: clip_ids_by_track_def)

lemma clip_ids_by_track_same:
  "map id_C cs = map id_C (clips (ts ! i)) \<Longrightarrow>
   clip_ids_by_track (set_clips i cs ts) = clip_ids_by_track ts"
  unfolding clip_ids_by_track_def set_clips_def
  by (rule map_update_same) simp

lemma track_ids_set_clips [simp]: "map id_T (set_clips i cs ts) = map id_T ts"
  unfolding set_clips_def by (rule map_update_same) simp

lemma length_clip_ids_by_track [simp]: "length (clip_ids_by_track ts) = length ts"
  by (simp add: clip_ids_by_track_def)

lemma put_clip_same_id:
  assumes "id_C c = id_C (clip_at p t)"
  shows "clip_ids_by_track (the_tracks (put_clip p c t)) = clip_ids_by_track (the_tracks t)"
  using assms by (simp add: clip_ids_by_track_same map_update_same clip_at_def)

lemma track_ids_put_clip [simp]: "map id_T (the_tracks (put_clip p c t)) = map id_T (the_tracks t)"
  by simp

lemma ripple_step_ids:
  "clip_ids_by_track (ripple_step p stale i d j ts) = clip_ids_by_track ts
   \<and> map id_T (ripple_step p stale i d j ts) = map id_T ts"
  by (simp add: ripple_step_def Let_def clip_ids_by_track_same map_update_same)

lemma fold_ripple_step_ids:
  "clip_ids_by_track (fold (ripple_step p stale i d) js ts) = clip_ids_by_track ts
   \<and> map id_T (fold (ripple_step p stale i d) js ts) = map id_T ts"
  by (induction js arbitrary: ts) (simp_all add: ripple_step_ids)

lemma ripple_loop_ids:
  "clip_ids_by_track (ripple_loop p stale i d ts) = clip_ids_by_track ts"
  "map id_T (ripple_loop p stale i d ts) = map id_T ts"
  by (simp_all add: ripple_loop_def fold_ripple_step_ids)

subsection \<open>The indices depend on the identifiers only\<close>

lemma fold_track_index_ids:
  "fold (\<lambda>(t, T) m. m(id_T T \<mapsto> t)) (enumerate n ts) m
     = fold (\<lambda>(t, k) m. m(k \<mapsto> t)) (enumerate n (map id_T ts)) m"
  by (induction ts arbitrary: n m) simp_all

lemma index_tracks_cong:
  "map id_T ts = map id_T ts' \<Longrightarrow> index_tracks ts = index_tracks ts'"
  by (simp add: index_tracks_def fold_track_index_ids)

lemma fold_clip_index_ids:
  "fold (\<lambda>(c, C) m. m(id_C C \<mapsto> (t, c))) (enumerate n cs) m
     = fold (\<lambda>(c, k) m. m(k \<mapsto> (t, c))) (enumerate n (map id_C cs)) m"
  by (induction cs arbitrary: n m) simp_all

lemma fold_tracks_clip_index_ids:
  "fold (\<lambda>(t, T) m. index_clips_of t (clips T) m) (enumerate n ts) m
     = fold (\<lambda>(t, ks) m. fold (\<lambda>(c, k) m. m(k \<mapsto> (t, c))) (enumerate 0 ks) m)
         (enumerate n (clip_ids_by_track ts)) m"
  by (induction ts arbitrary: n m)
     (simp_all add: clip_ids_by_track_def index_clips_of_def fold_clip_index_ids)

lemma index_clips_cong:
  "clip_ids_by_track ts = clip_ids_by_track ts' \<Longrightarrow> index_clips ts = index_clips ts'"
  by (simp add: index_clips_def fold_tracks_clip_index_ids)

subsection \<open>The indices agree with the sequence in every reachable state\<close>

lemma indices_ok_rebuild [simp]:
  "indices_ok (rebuildIndices u)"
  "indices_ok (updateDuration (rebuildIndices u))"
  by (simp_all add: indices_ok_def)

lemma indices_ok_same_ids:
  assumes "indices_ok t" "trackIndex_m t' = trackIndex_m t" "clipIndex_m t' = clipIndex_m t"
    "map id_T (the_tracks t') = map id_T (the_tracks t)"
    "clip_ids_by_track (the_tracks t') = clip_ids_by_track (the_tracks t)"
  shows "indices_ok t'"
  using assms index_tracks_cong[OF assms(4)] index_clips_cong[OF assms(5)]
  by (simp add: indices_ok_def)

lemma indices_ok_put_clip:
  assumes "indices_ok t" "id_C c = id_C (clip_at p t)"
  shows "indices_ok (updateDuration (put_clip p c (pushUndo t)))"
    and "indices_ok (put_clip p c (pushUndo t))"
proof -
  have "clip_ids_by_track (the_tracks (put_clip p c (pushUndo t))) = clip_ids_by_track (the_tracks t)"
    using put_clip_same_id[of c p "pushUndo t"] assms(2) by simp
  then show "indices_ok (updateDuration (put_clip p c (pushUndo t)))"
    and "indices_ok (put_clip p c (pushUndo t))"
    using assms(1) by (auto intro!: indices_ok_same_ids[of t])
qed

lemma indices_ok_edit:
  assumes "indices_ok t" and "apply_edit e t = Inr (b, t')"
  shows "indices_ok t'"
proof (cases e)
  case (AddTrack T)
  with assms show ?thesis by (auto simp: addTrack_def Let_def split: if_splits)
next
  case (UpdateTrack T)
  with assms show ?thesis
    by (auto simp: updateTrack_def Let_def split: sum.splits option.splits if_splits)
next
  case (RemoveTrack tid)
  with assms show ?thesis
    by (auto simp: removeTrack_def Let_def split: sum.splits option.splits if_splits)
next
  case (UpsertClip c)
  with assms show ?thesis
    by (auto simp: upsertClip_def Let_def split: sum.splits option.splits if_splits)
next
  case (MoveClip cid tid ns)
  with assms show ?thesis
    by (auto simp: moveClip_def Let_def split: sum.splits option.splits if_splits prod.splits)
next
  case (TrimClip cid a b)
  with assms show ?thesis
    by (auto simp: trimClip_def Let_def indices_ok_put_clip
        split: sum.splits option.splits if_splits)
next
  case (SplitClip cid off)
  with assms show ?thesis
    by (auto simp: splitClip_def Let_def indices_ok_put_clip
        split: sum.splits option.splits if_splits)
next
  case (RippleDelete cid)
  with assms show ?thesis
    by (auto simp: rippleDelete_def Let_def split: sum.splits option.splits if_splits)
qed

lemma reachable_indices_ok: "reachable t \<Longrightarrow> indices_ok t"
proof (induction rule: reachable.induct)
  case fresh
  show ?case
    by (simp add: indices_ok_def Timeline_init_def Sequence_init_def the_tracks_def
        index_tracks_def index_clips_def)
next
  case (metadata t w h f sr)
  then show ?case by (simp add: indices_ok_def setSequenceMetadata_def the_tracks_def)
next
  case (edit t e b t')
  then show ?case using indices_ok_edit by blast
qed

text \<open>With agreeing indices no pointer of the operations is wild.\<close>

lemma indices_ok_trackIndex:
  "indices_ok t \<Longrightarrow> trackIndex_m t k = Some i \<Longrightarrow>
   i < length (the_tracks t) \<and> id_T (the_tracks t ! i) = k"
  by (simp add: indices_ok_def index_tracks_Some)

lemma indices_ok_trackIndex_None:
  "indices_ok t \<Longrightarrow> trackIndex_m t k = None \<longleftrightarrow> k \<notin> set (track_ids t)"
  by (simp add: indices_ok_def index_tracks_None track_ids_def)

lemma indices_ok_clipIndex:
  "indices_ok t \<Longrightarrow> clipIndex_m t k = Some p \<Longrightarrow>
   fst p < length (the_tracks t) \<and> snd p < length (clips (the_tracks t ! fst p))
   \<and> id_C (clip_at p t) = k"
  using index_clips_Some[of "the_tracks t" k "fst p" "snd p"]
  by (simp add: indices_ok_def clip_at_def)

lemma indices_ok_clipIndex_None:
  "indices_ok t \<Longrightarrow> clipIndex_m t k = None \<longleftrightarrow> k \<notin> set (clip_ids t)"
  by (simp add: indices_ok_def index_clips_None clip_ids_def)


subsection \<open>Track identifiers stay unique\<close>

lemma track_ids_failed_edit:
  assumes "apply_edit e t = Inr (False, t')"
  shows "map id_T (the_tracks t') = map id_T (the_tracks t)"
proof (cases e)
  case (AddTrack T)
  with assms show ?thesis by (auto simp: addTrack_def Let_def split: if_splits)
next
  case (UpdateTrack T)
  with assms show ?thesis
    by (auto simp: updateTrack_def Let_def split: sum.splits option.splits if_splits)
next
  case (RemoveTrack tid)
  with assms show ?thesis
    by (auto simp: removeTrack_def Let_def split: sum.splits option.splits if_splits)
next
  case (UpsertClip c)
  with assms show ?thesis
    by (auto simp: upsertClip_def Let_def split: sum.splits option.splits if_splits)
next
  case (MoveClip cid tid ns)
  with assms show ?thesis
    by (auto simp: moveClip_def Let_def split: sum.splits option.splits if_splits prod.splits)
next
  case (TrimClip cid a b)
  with assms show ?thesis
    by (auto simp: trimClip_def Let_def split: sum.splits option.splits if_splits)
next
  case (SplitClip cid off)
  with assms show ?thesis
    by (auto simp: splitClip_def Let_def split: sum.splits option.splits if_splits)
next
  case (RippleDelete cid)
  with assms show ?thesis
    by (auto simp: rippleDelete_def Let_def split: sum.splits option.splits if_splits)
qed

lemma distinct_erase: "distinct xs \<Longrightarrow> distinct (erase i xs)"
  using mset_erase_subset distinct_mset_subset by blast

lemma map_erase: "map f (erase i xs) = erase i (map f xs)"
  by (simp add: erase_def take_map drop_map)

lemma track_ids_edit:
  assumes "indices_ok t" and "distinct (track_ids t)" and "apply_edit e t = Inr (b, t')"
  shows "distinct (track_ids t')"
proof (cases b)
  case False
  with assms(3) have "apply_edit e t = Inr (False, t')" by simp
  then have "map id_T (the_tracks t') = map id_T (the_tracks t)"
    by (rule track_ids_failed_edit)
  with assms(2) show ?thesis by (simp add: track_ids_def)
next
  case True
  with assms(3) have r: "apply_edit e t = Inr (True, t')" by simp
  show ?thesis
  proof (cases e)
    case (AddTrack T)
    with r have "addTrack T t = Inr (True, t')" by simp
    from addTrack_tracks[OF this] assms(1,2) show ?thesis
      by (simp add: indices_ok_trackIndex_None track_ids_def)
  next
    case (UpdateTrack T)
    with r have "updateTrack T t = Inr (True, t')" by simp
    from updateTrack_tracks[OF this] obtain i where i: "trackIndex_m t (id_T T) = Some i"
      and t': "the_tracks t' = (the_tracks t)[i := T]" by blast
    from indices_ok_trackIndex[OF assms(1) i] have "id_T T = id_T (the_tracks t ! i)" by simp
    then have "map id_T ((the_tracks t)[i := T]) = map id_T (the_tracks t)"
      by (rule map_update_same)
    with t' assms(2) show ?thesis by (simp add: track_ids_def)
  next
    case (RemoveTrack tid)
    with r have "removeTrack tid t = Inr (True, t')" by simp
    from removeTrack_tracks[OF this] assms(2) show ?thesis
      by (auto simp: track_ids_def map_erase distinct_erase)
  next
    case (UpsertClip c)
    with r have "upsertClip c t = Inr (True, t')" by simp
    from upsertClip_tracks[OF this] assms(2) show ?thesis
      by (auto simp: track_ids_def)
  next
    case (MoveClip cid tid ns)
    with r have "moveClip cid tid ns t = Inr (True, t')" by simp
    from moveClip_tracks[OF this] assms(2) show ?thesis
      by (auto simp: track_ids_def)
  next
    case (TrimClip cid a b)
    with r have "trimClip cid a b t = Inr (True, t')" by simp
    from trimClip_tracks[OF this] assms(2) show ?thesis
      by (auto simp: track_ids_def)
  next
    case (SplitClip cid off)
    with r have "splitClip cid off t = Inr (True, t')" by simp
    from splitClip_tracks[OF this] assms(2) show ?thesis
      by (auto simp: track_ids_def Let_def)
  next
    case (RippleDelete cid)
    with r have "rippleDelete cid t = Inr (True, t')" by simp
    from rippleDelete_tracks[OF this] assms(2) show ?thesis
      by (auto simp: track_ids_def ripple_loop_ids)
  qed
qed

lemma reachable_track_ids: "reachable t \<Longrightarrow> distinct (track_ids t)"
proof (induction rule: reachable.induct)
  case fresh
  show ?case
    by (simp add: track_ids_def Timeline_init_def Sequence_init_def the_tracks_def)
next
  case (metadata t w h f sr)
  then show ?case by (simp add: track_ids_def)
next
  case (edit t e b t')
  then show ?case using track_ids_edit reachable_indices_ok by blast
qed

subsection \<open>Clip identifiers stay unique\<close>

lemma distinct_ids_set_clips_sub:
  assumes "distinct (concat (clip_ids_by_track ts))"
    and "mset (map id_C cs) \<subseteq># mset (map id_C (clips (ts ! i)))"
  shows "distinct (concat (clip_ids_by_track (set_clips i cs ts)))"
proof (cases "i < length ts")
  case True
  with assms show ?thesis
    by (simp add: clip_ids_by_track_set_clips distinct_concat_update clip_ids_by_track_nth)
next
  case False
  then show ?thesis using assms(1)
    by (simp add: clip_ids_by_track_set_clips list_update_beyond)
qed

lemma distinct_ids_set_clips_add:
  assumes "distinct (concat (clip_ids_by_track ts))" and "i < length ts"
    and "mset (map id_C cs) = mset (map id_C (clips (ts ! i))) + {#k#}"
    and "k \<notin> set (concat (clip_ids_by_track ts))"
  shows "distinct (concat (clip_ids_by_track (set_clips i cs ts)))"
  using assms
  by (simp add: clip_ids_by_track_set_clips distinct_concat_update_add clip_ids_by_track_nth)

lemma mset_sort_clips [simp]: "mset (sort_clips cs) = mset cs"
  by (simp add: sort_clips_def)

lemma clip_ids_edit:
  assumes "indices_ok t" and "distinct (clip_ids t)" and "keeps_clip_ids e t"
    and "apply_edit e t = Inr (True, t')"
  shows "distinct (clip_ids t')"
proof (cases e)
  case (AddTrack T)
  with assms have "addTrack T t = Inr (True, t')" by simp
  from addTrack_tracks[OF this] assms(2,3) AddTrack show ?thesis
    by (auto simp: clip_ids_def all_clips_def)
next
  case (UpdateTrack T)
  with assms have "updateTrack T t = Inr (True, t')" by simp
  from updateTrack_tracks[OF this] assms(3) UpdateTrack show ?thesis
    by (auto simp: clip_ids_def)
next
  case (RemoveTrack tid)
  with assms have "removeTrack tid t = Inr (True, t')" by simp
  from removeTrack_tracks[OF this] obtain i where "the_tracks t' = erase i (the_tracks t)"
    by blast
  then have "clip_ids t' = concat (erase i (clip_ids_by_track (the_tracks t)))"
    by (simp add: clip_ids_concat clip_ids_by_track_def map_erase)
  with assms(2) show ?thesis
    using mset_concat_erase_subset distinct_mset_subset by (metis clip_ids_concat)
next
  case (UpsertClip c)
  with assms have r: "upsertClip c t = Inr (True, t')" by simp
  from upsertClip_tracks[OF r] obtain i where i: "i < length (the_tracks t)"
    and d: "(clipIndex_m t (id_C c) = None
          \<and> the_tracks t' = set_clips i (sort_clips (clips (the_tracks t ! i) @ [c])) (the_tracks t))
        \<or> (\<exists>p. clipIndex_m t (id_C c) = Some p \<and> fst p < length (the_tracks t)
              \<and> snd p < length (clips (the_tracks t ! fst p))
              \<and> the_tracks t' =
                  set_clips i (sort_clips (clips (the_tracks (put_clip p c t) ! i)))
                    (the_tracks (put_clip p c t)))"
    by blast
  from d show ?thesis
  proof
    assume n: "clipIndex_m t (id_C c) = None
          \<and> the_tracks t' = set_clips i (sort_clips (clips (the_tracks t ! i) @ [c])) (the_tracks t)"
    then have k: "id_C c \<notin> set (concat (clip_ids_by_track (the_tracks t)))"
      using assms(1) indices_ok_clipIndex_None[of t "id_C c"] by (simp add: clip_ids_concat)
    have d: "distinct (concat (clip_ids_by_track (the_tracks t)))"
      using assms(2) by (simp add: clip_ids_concat)
    have "distinct (concat (clip_ids_by_track
        (set_clips i (sort_clips (clips (the_tracks t ! i) @ [c])) (the_tracks t))))"
      by (rule distinct_ids_set_clips_add[OF d i _ k]) simp
    with n show ?thesis by (simp add: clip_ids_concat)
  next
    assume "\<exists>p. clipIndex_m t (id_C c) = Some p \<and> fst p < length (the_tracks t)
              \<and> snd p < length (clips (the_tracks t ! fst p))
              \<and> the_tracks t' =
                  set_clips i (sort_clips (clips (the_tracks (put_clip p c t) ! i)))
                    (the_tracks (put_clip p c t))"
    then obtain p where p: "clipIndex_m t (id_C c) = Some p"
      and t': "the_tracks t' = set_clips i (sort_clips (clips (the_tracks (put_clip p c t) ! i)))
                    (the_tracks (put_clip p c t))"
      by blast
    from indices_ok_clipIndex[OF assms(1) p] have "id_C c = id_C (clip_at p t)" by simp
    then have "clip_ids_by_track (the_tracks (put_clip p c t)) = clip_ids_by_track (the_tracks t)"
      by (rule put_clip_same_id)
    with assms(2) have "distinct (concat (clip_ids_by_track (the_tracks (put_clip p c t))))"
      by (simp add: clip_ids_concat)
    then show ?thesis unfolding clip_ids_concat t'
      by (rule distinct_ids_set_clips_sub) simp
  qed
next
  case (MoveClip cid tid ns)
  with assms have "moveClip cid tid ns t = Inr (True, t')" by simp
  from moveClip_tracks[OF this] obtain p where
    "the_tracks t' = the_tracks (put_clip p ((clip_at p t)\<lparr>trackId := tid, start := ns\<rparr>) t)"
    by blast
  moreover have "clip_ids_by_track
      (the_tracks (put_clip p ((clip_at p t)\<lparr>trackId := tid, start := ns\<rparr>) t))
      = clip_ids_by_track (the_tracks t)"
    by (rule put_clip_same_id) simp
  ultimately have "clip_ids_by_track (the_tracks t') = clip_ids_by_track (the_tracks t)"
    by (simp only:)
  with assms(2) show ?thesis by (simp add: clip_ids_concat)
next
  case (TrimClip cid a b)
  with assms have "trimClip cid a b t = Inr (True, t')" by simp
  from trimClip_tracks[OF this] obtain p where
    "the_tracks t' = the_tracks (put_clip p ((clip_at p t)\<lparr>
            trimStart := trimStart (clip_at p t) + a,
            trimEnd := trimEnd (clip_at p t) + b,
            duration_C := max 0 (duration_C (clip_at p t) - a - b)\<rparr>) t)"
    by blast
  moreover have "clip_ids_by_track
      (the_tracks (put_clip p ((clip_at p t)\<lparr>
            trimStart := trimStart (clip_at p t) + a,
            trimEnd := trimEnd (clip_at p t) + b,
            duration_C := max 0 (duration_C (clip_at p t) - a - b)\<rparr>) t))
      = clip_ids_by_track (the_tracks t)"
    by (rule put_clip_same_id) simp
  ultimately have "clip_ids_by_track (the_tracks t') = clip_ids_by_track (the_tracks t)"
    by (simp only:)
  with assms(2) show ?thesis by (simp add: clip_ids_concat)
next
  case (SplitClip cid off)
  with assms have r: "splitClip cid off t = Inr (True, t')" and fresh: "cid @ ''_b'' \<notin> set (clip_ids t)"
    by simp_all
  let ?first = "\<lambda>p. (clip_at p t)\<lparr>duration_C := off,
                      trimEnd := trimEnd (clip_at p t) + (duration_C (clip_at p t) - off)\<rparr>"
  let ?second = "\<lambda>p. (clip_at p t)\<lparr>id_C := id_C (clip_at p t) @ ''_b'', start := start (clip_at p t) + off,
                     trimStart := trimStart (clip_at p t) + off,
                     duration_C := duration_C (clip_at p t) - off\<rparr>"
  from splitClip_tracks[OF r] obtain p i where p: "clipIndex_m t cid = Some p"
    and i: "i < length (the_tracks t)"
    and t': "the_tracks t' = set_clips i (sort_clips (clips (the_tracks (put_clip p (?first p) t) ! i) @
               [?second p])) (the_tracks (put_clip p (?first p) t))"
    by (auto simp: Let_def simp del: the_tracks_put_clip)
  let ?ts2 = "the_tracks (put_clip p (?first p) t)"
  have same: "clip_ids_by_track ?ts2 = clip_ids_by_track (the_tracks t)"
    by (rule put_clip_same_id) simp
  from indices_ok_clipIndex[OF assms(1) p] have "id_C (?second p) = cid @ ''_b''" by simp
  moreover from fresh have "cid @ ''_b'' \<notin> set (concat (clip_ids_by_track ?ts2))"
    unfolding same by (simp add: clip_ids_concat)
  ultimately have k: "id_C (?second p) \<notin> set (concat (clip_ids_by_track ?ts2))"
    by (simp del: the_tracks_put_clip)
  have d2: "distinct (concat (clip_ids_by_track ?ts2))"
    unfolding same using assms(2) by (simp add: clip_ids_concat)
  have len: "i < length ?ts2" using i by simp
  show ?thesis unfolding clip_ids_concat t'
    by (rule distinct_ids_set_clips_add[OF d2 len _ k]) simp
next
  case (RippleDelete cid)
  with assms have "rippleDelete cid t = Inr (True, t')" by simp
  from rippleDelete_tracks[OF this] obtain p i where
    t': "the_tracks t' =
         ripple_loop p (start (clip_at p t)) i (duration_C (clip_at p t))
           (set_clips i (erase (snd p) (clips (the_tracks t ! i))) (the_tracks t))"
    by blast
  have "distinct (concat (clip_ids_by_track
      (set_clips i (erase (snd p) (clips (the_tracks t ! i))) (the_tracks t))))"
    using assms(2) unfolding clip_ids_concat
    by (rule distinct_ids_set_clips_sub) (simp only: map_erase mset_erase_subset)
  then show ?thesis by (simp add: clip_ids_concat t' ripple_loop_ids)
qed

text \<open>
  C7 as stated fails. \<^verbatim>\<open>splitClip("x", 2)\<close> with a clip \<^verbatim>\<open>x_b\<close> already on the track adds a
  second clip named \<^verbatim>\<open>x_b\<close>; and \<^verbatim>\<open>addTrack\<close> stores a track whose clip list names \<^verbatim>\<open>d\<close>
  twice.
\<close>

theorem C7_counterexample:
  "(case calls [AddTrack (a_track ''v1'' []), UpsertClip (a_clip ''x'' ''v1'' 0 4),
                UpsertClip (a_clip ''x_b'' ''v1'' 10 1), SplitClip ''x'' 2] Timeline_init of
      Inl e \<Rightarrow> False
    | Inr (bs, s) \<Rightarrow>
        bs = [True, True, True, True] \<and> clip_ids s = [''x'', ''x_b'', ''x_b'']
        \<and> \<not> ids_unique s)
   \<and>
   (case calls [AddTrack (a_track ''v1'' [a_clip ''d'' ''v1'' 0 1, a_clip ''d'' ''v1'' 2 1])]
          Timeline_init of
      Inl e \<Rightarrow> False
    | Inr (bs, s) \<Rightarrow> bs = [True] \<and> clip_ids s = [''d'', ''d''] \<and> \<not> ids_unique s)"
  by (simp add: model_defs ids_unique_def clip_ids_def all_clips_def)

text \<open>
  C7, amended. In every state a host can reach, the track identifiers are unique. If the
  clip identifiers are unique across the sequence before the call, they are unique after
  every successful \<^verbatim>\<open>removeTrack\<close>, \<^verbatim>\<open>upsertClip\<close>, \<^verbatim>\<open>moveClip\<close>, \<^verbatim>\<open>trimClip\<close> and
  \<^verbatim>\<open>rippleDelete\<close>, after a successful \<^verbatim>\<open>splitClip\<close> of a clip whose id with \<^verbatim>\<open>_b\<close>
  appended is not in use, after a successful \<^verbatim>\<open>addTrack\<close> whose clips have distinct ids not
  in use, and after a successful \<^verbatim>\<open>updateTrack\<close> that leaves the ids of the sequence distinct.
\<close>

theorem C7_identifiers_stay_unique:
  "(reachable t \<longrightarrow> distinct (track_ids t))
   \<and> (reachable t \<and> distinct (clip_ids t) \<and> keeps_clip_ids e t \<and> apply_edit e t = Inr (True, t')
      \<longrightarrow> distinct (clip_ids t'))"
  using reachable_track_ids clip_ids_edit reachable_indices_ok by blast

text \<open>Scenario S2: splitting \<^verbatim>\<open>x\<close> gives the clips \<^verbatim>\<open>x\<close> and \<^verbatim>\<open>x_b\<close>.\<close>

theorem C7_witness:
  "reachable (state_after [AddTrack (a_track ''v1'' []), UpsertClip (a_clip ''x'' ''v1'' 0 4)])
   \<and> distinct (track_ids (state_after [AddTrack (a_track ''v1'' []), UpsertClip (a_clip ''x'' ''v1'' 0 4)]))
   \<and> distinct (clip_ids (state_after [AddTrack (a_track ''v1'' []), UpsertClip (a_clip ''x'' ''v1'' 0 4)]))
   \<and> keeps_clip_ids (SplitClip ''x'' 2)
        (state_after [AddTrack (a_track ''v1'' []), UpsertClip (a_clip ''x'' ''v1'' 0 4)])
   \<and> (case apply_edit (SplitClip ''x'' 2)
             (state_after [AddTrack (a_track ''v1'' []), UpsertClip (a_clip ''x'' ''v1'' 0 4)]) of
        Inl e \<Rightarrow> False
      | Inr (b, t') \<Rightarrow> b \<and> distinct (clip_ids t') \<and> clip_ids t' = [''x'', ''x_b''])"
proof -
  let ?t = "state_after [AddTrack (a_track ''v1'' []), UpsertClip (a_clip ''x'' ''v1'' 0 4)]"
  let ?e = "SplitClip ''x'' 2"
  have re: "reachable ?t" by (rule reachable_state_after)
  have d: "distinct (clip_ids ?t)"
    by (simp add: state_after_def model_defs clip_ids_def all_clips_def)
  have k: "keeps_clip_ids ?e ?t"
    by (simp add: state_after_def model_defs clip_ids_def all_clips_def)
  obtain t' where r: "apply_edit ?e ?t = Inr (True, t')"
    by (simp add: state_after_def model_defs)
  have ids: "clip_ids t' = [''x'', ''x_b'']"
    using r by (auto simp: state_after_def model_defs clip_ids_def all_clips_def)
  from C7_identifiers_stay_unique[of ?t ?e t'] re d k r
  have "distinct (track_ids ?t) \<and> distinct (clip_ids t')" by blast
  then show ?thesis using re d k ids r[simplified] by simp
qed

section \<open>Defined results\<close>

text \<open>
  In a state whose indices agree with the sequence, and so in every reachable state, the
  lookups of the operations never point outside the vectors: every operation other than
  \<^verbatim>\<open>rippleDelete\<close> returns.
\<close>

lemma findTrack_indices_ok: "indices_ok t \<Longrightarrow> findTrack k t = Inr (trackIndex_m t k)"
  using indices_ok_trackIndex[of t k]
  by (auto simp: findTrack_def split: option.splits)

lemma findClip_indices_ok: "indices_ok t \<Longrightarrow> findClip k t = Inr (clipIndex_m t k)"
  using indices_ok_clipIndex[of t k]
  by (auto simp: findClip_def split: option.splits)

lemma edit_defined:
  assumes "indices_ok t" and "\<forall>cid. e \<noteq> RippleDelete cid"
  shows "\<exists>b t'. apply_edit e t = Inr (b, t')"
proof (cases e)
  case (AddTrack T)
  then show ?thesis by (auto simp: addTrack_def Let_def)
next
  case (UpdateTrack T)
  then show ?thesis using assms(1)
    by (auto simp: updateTrack_def findTrack_indices_ok Let_def split: option.splits)
next
  case (RemoveTrack tid)
  then show ?thesis using assms(1) indices_ok_trackIndex[of t tid]
    by (auto simp: removeTrack_def Let_def split: option.splits)
next
  case (UpsertClip c)
  then show ?thesis using assms(1) indices_ok_clipIndex[of t "id_C c"]
    by (auto simp: upsertClip_def findTrack_indices_ok Let_def split: option.splits)
next
  case (MoveClip cid tid ns)
  then show ?thesis using assms(1)
    by (auto simp: moveClip_def findTrack_indices_ok findClip_indices_ok Let_def
        split: option.splits)
next
  case (TrimClip cid a b)
  then show ?thesis using assms(1)
    by (auto simp: trimClip_def findClip_indices_ok Let_def split: option.splits)
next
  case (SplitClip cid off)
  then show ?thesis using assms(1)
    by (auto simp: splitClip_def findClip_indices_ok findTrack_def Let_def
        dest: indices_ok_trackIndex
        split: option.splits)
next
  case (RippleDelete cid)
  with assms(2) show ?thesis by simp
qed

text \<open>
  \<^verbatim>\<open>rippleDelete\<close> is the exception. It erases from the track the clip's \<^verbatim>\<open>trackId\<close> names, at
  the position the clip has in the track that holds it. After \<^verbatim>\<open>moveClip\<close> has left \<^verbatim>\<open>y\<close> at
  position 1 of \<^verbatim>\<open>v1\<close> with \<^verbatim>\<open>trackId\<close> \<^verbatim>\<open>v2\<close>, \<^verbatim>\<open>rippleDelete("y")\<close> erases position 1 of the
  empty clip vector of \<^verbatim>\<open>v2\<close>.
\<close>

lemma rippleDelete_foreign_track:
  "calls [AddTrack (a_track ''v1'' []), AddTrack (a_track ''v2'' []),
          UpsertClip (a_clip ''x'' ''v1'' 0 1), UpsertClip (a_clip ''y'' ''v1'' 5 1),
          MoveClip ''y'' ''v2'' 5, RippleDelete ''y''] Timeline_init = Inl UndefinedBehaviour"
  by (simp add: model_defs)

section \<open>What a failed call leaves\<close>

text \<open>
  Every operation other than \<^verbatim>\<open>splitClip\<close> returns false only before it has written
  anything, the undo buffer included; \<^verbatim>\<open>splitClip\<close> returns false with the state unchanged
  unless the clip's \<^verbatim>\<open>trackId\<close> names no track.
\<close>

lemma failed_edit_unchanged:
  assumes "apply_edit e t = Inr (False, t')" and "\<forall>cid off. e \<noteq> SplitClip cid off"
  shows "t' = t"
proof (cases e)
  case (AddTrack T)
  with assms show ?thesis by (auto simp: addTrack_def Let_def split: if_splits)
next
  case (UpdateTrack T)
  with assms show ?thesis
    by (auto simp: updateTrack_def Let_def split: sum.splits option.splits if_splits)
next
  case (RemoveTrack tid)
  with assms show ?thesis
    by (auto simp: removeTrack_def Let_def split: sum.splits option.splits if_splits)
next
  case (UpsertClip c)
  with assms show ?thesis
    by (auto simp: upsertClip_def Let_def split: sum.splits option.splits if_splits)
next
  case (MoveClip cid tid ns)
  with assms show ?thesis
    by (auto simp: moveClip_def Let_def split: sum.splits option.splits if_splits prod.splits)
next
  case (TrimClip cid a b)
  with assms show ?thesis
    by (auto simp: trimClip_def Let_def split: sum.splits option.splits if_splits)
next
  case (SplitClip cid off)
  with assms(2) show ?thesis by simp
next
  case (RippleDelete cid)
  with assms show ?thesis
    by (auto simp: rippleDelete_def Let_def split: sum.splits option.splits if_splits)
qed

lemma failed_splitClip:
  assumes "splitClip cid off t = Inr (False, t')"
  shows "t' = t \<or> (\<exists>p. clipIndex_m t cid = Some p \<and> trackIndex_m t (trackId (clip_at p t)) = None)"
  using assms
  by (auto simp: splitClip_def findClip_def findTrack_def Let_def clip_at_put_clip_same
      split: sum.splits option.splits if_splits)

end
